theory Spec2Isabelle
  imports Main
begin

section \<open>Strings of the source language\<close>

text \<open>
  A Python \<^verbatim>\<open>str\<close> is a sequence of Unicode code points, so a character is modelled by its
  code point (a natural number) and a string by a list of code points.  ASCII literals are
  written through \<open>A\<close>, which maps an Isabelle string literal to its code points.
\<close>

type_synonym uchar = nat
type_synonym ustr = "nat list"

definition A :: "string \<Rightarrow> ustr" where
  "A s = map of_char s"

section \<open>Ordinal Counter (class PageCounter)\<close>

text \<open>
  \<^verbatim>\<open>self.count\<close> and \<^verbatim>\<open>self.limit\<close> are unbounded Python integers;
  \<^verbatim>\<open>self.level_counters\<close> is a \<^verbatim>\<open>defaultdict(int)\<close>: a dictionary whose missing
  keys read as 0.
\<close>

record page_counter =
  count :: int
  limit :: int
  level_counters :: "ustr \<rightharpoonup> int"

definition PageCounter :: "int \<Rightarrow> page_counter" where
  "PageCounter lim = \<lparr>count = 0, limit = lim, level_counters = Map.empty\<rparr>"

definition increment :: "page_counter \<Rightarrow> page_counter \<times> bool" where
  "increment c =
     (let c' = c\<lparr>count := count c + 1\<rparr>
      in (c', limit c' = - 1 \<or> count c' \<le> limit c'))"

definition getitem_default :: "(ustr \<rightharpoonup> int) \<Rightarrow> ustr \<Rightarrow> int" where
  "getitem_default m k = (case m k of None \<Rightarrow> 0 | Some v \<Rightarrow> v)"

definition get_next_number :: "page_counter \<Rightarrow> ustr \<Rightarrow> page_counter \<times> int" where
  "get_next_number c parent_id =
     (let m = (level_counters c)(parent_id \<mapsto> getitem_default (level_counters c) parent_id + 1);
          c' = c\<lparr>level_counters := m\<rparr>
      in (c', getitem_default (level_counters c') parent_id))"

text \<open>Sequences of calls on one counter, collecting the returned values in call order.\<close>

fun increment_calls :: "nat \<Rightarrow> page_counter \<Rightarrow> bool list" where
  "increment_calls 0 c = []"
| "increment_calls (Suc n) c = (let (c', ok) = increment c in ok # increment_calls n c')"

fun number_calls :: "ustr list \<Rightarrow> page_counter \<Rightarrow> int list" where
  "number_calls [] c = []"
| "number_calls (k # ks) c = (let (c', n) = get_next_number c k in n # number_calls ks c')"

section \<open>Character classes and string helpers of the Python runtime\<close>

text \<open>
  The source calls \<^verbatim>\<open>str.isalnum\<close>, \<^verbatim>\<open>str.strip\<close> and the regular-expression class
  \<^verbatim>\<open>\d\<close>, all of which are Unicode aware.  On ASCII the classes are written out below; for
  code points from 128 on they are tables of the interpreter, not of this repository, and are
  taken as a parameter \<open>unicode_db\<close>.  A character is alphanumeric when it is alphabetic,
  decimal, digit or numeric, as the Python documentation defines \<^verbatim>\<open>isalnum\<close>.
\<close>

record unicode_db =
  alpha_hi :: "uchar \<Rightarrow> bool"
  decimal_hi :: "uchar \<Rightarrow> bool"
  digit_hi :: "uchar \<Rightarrow> bool"
  numeric_hi :: "uchar \<Rightarrow> bool"
  space_hi :: "uchar \<Rightarrow> bool"

definition isalpha :: "unicode_db \<Rightarrow> uchar \<Rightarrow> bool" where
  "isalpha db c =
     (if c < 128 then (65 \<le> c \<and> c \<le> 90) \<or> (97 \<le> c \<and> c \<le> 122) else alpha_hi db c)"

definition isdecimal :: "unicode_db \<Rightarrow> uchar \<Rightarrow> bool" where
  "isdecimal db c = (if c < 128 then 48 \<le> c \<and> c \<le> 57 else decimal_hi db c)"

definition isdigit :: "unicode_db \<Rightarrow> uchar \<Rightarrow> bool" where
  "isdigit db c = (if c < 128 then 48 \<le> c \<and> c \<le> 57 else digit_hi db c)"

definition isnumeric :: "unicode_db \<Rightarrow> uchar \<Rightarrow> bool" where
  "isnumeric db c = (if c < 128 then 48 \<le> c \<and> c \<le> 57 else numeric_hi db c)"

definition isalnum :: "unicode_db \<Rightarrow> uchar \<Rightarrow> bool" where
  "isalnum db c \<longleftrightarrow> isalpha db c \<or> isdecimal db c \<or> isdigit db c \<or> isnumeric db c"

definition isspace :: "unicode_db \<Rightarrow> uchar \<Rightarrow> bool" where
  "isspace db c =
     (if c < 128 then (9 \<le> c \<and> c \<le> 13) \<or> (28 \<le> c \<and> c \<le> 32) else space_hi db c)"

text \<open>\<^verbatim>\<open>s.strip()\<close>: drop leading and trailing whitespace.\<close>

definition strip :: "unicode_db \<Rightarrow> ustr \<Rightarrow> ustr" where
  "strip db s = rev (dropWhile (isspace db) (rev (dropWhile (isspace db) s)))"

text \<open>\<^verbatim>\<open>str(n)\<close> for an integer, and the format specification \<^verbatim>\<open>02d\<close>: sign-aware zero
  padding to a minimum width of two.\<close>

fun dec_nat :: "nat \<Rightarrow> ustr" where
  "dec_nat n = (if n < 10 then [48 + n] else dec_nat (n div 10) @ [48 + n mod 10])"

definition str_int :: "int \<Rightarrow> ustr" where
  "str_int i = (if i < 0 then 45 # dec_nat (nat (- i)) else dec_nat (nat i))"

definition format_02d :: "int \<Rightarrow> ustr" where
  "format_02d i =
     (if i < 0 then 45 # replicate (1 - length (dec_nat (nat (- i)))) 48 @ dec_nat (nat (- i))
      else replicate (2 - length (dec_nat (nat i))) 48 @ dec_nat (nat i))"

text \<open>Reading a string of ASCII digits back as a number (used to state what the formatting
  produces).\<close>

definition read_dec :: "ustr \<Rightarrow> nat" where
  "read_dec s = foldl (\<lambda>a d. 10 * a + (d - 48)) 0 s"

text \<open>
  \<^verbatim>\<open>os.path.splitext\<close> (\<^verbatim>\<open>genericpath._splitext\<close>): the extension starts at the last dot,
  provided that dot comes after the last path separator and some character between that
  separator and the dot is not a dot.  The separators depend on the platform.
\<close>

datatype platform = Posix | Windows

fun path_seps :: "platform \<Rightarrow> uchar list" where
  "path_seps Posix = [47]"
| "path_seps Windows = [92, 47]"

fun rfind :: "uchar \<Rightarrow> ustr \<Rightarrow> int" where
  "rfind c [] = - 1"
| "rfind c (x # xs) = (let r = rfind c xs in if r \<noteq> - 1 then r + 1 else if x = c then 0 else - 1)"

definition splitext :: "platform \<Rightarrow> ustr \<Rightarrow> ustr \<times> ustr" where
  "splitext pf p =
     (let sepIndex = foldl max (- 1) (map (\<lambda>sep. rfind sep p) (path_seps pf));
          dotIndex = rfind 46 p
      in if dotIndex > sepIndex
            \<and> list_ex (\<lambda>j. p ! j \<noteq> 46) [nat (sepIndex + 1)..<nat dotIndex]
         then (take (nat dotIndex) p, drop (nat dotIndex) p)
         else (p, []))"

section \<open>The outside world: collaborators, effects and errors\<close>

text \<open>
  A path is modelled as the list of its components, \<^verbatim>\<open>os.path.join(base, name)\<close> as
  \<open>base @ [name]\<close>.  The remote API, the clock and the browser-driven downloader are
  collaborators supplied from outside; they are the fields of \<open>env\<close>.  Every effect the
  run has on them and on the file system is recorded, in order, in the \<open>trace\<close> of the state.
\<close>

type_synonym path = "ustr list"

datatype error =
    TransportError ustr
  | ValueError
  | RecursionError
  | OSError path

record page =
  page_id :: ustr
  subject :: ustr
  parentPageId :: "ustr option"

record attachment =
  att_name :: ustr
  att_id :: ustr
  att_size :: int

record page_content =
  body_content :: ustr
  mimeType :: ustr
  createdAt :: ustr
  files :: "attachment list"

record metadata =
  md_id :: ustr
  md_subject :: ustr
  md_mimeType :: ustr
  md_createdAt :: ustr
  md_parentPageId :: "ustr option"
  md_attachments :: "attachment list"

text \<open>What one download attempt inside a \<^verbatim>\<open>try\<close> block amounts to: the file arrived and was
  moved into place, no file arrived (\<^verbatim>\<open>None\<close> or a path that does not exist), or an
  exception was raised somewhere in the block.\<close>

datatype dl_outcome = Fetched | NoFile | Raised

datatype event =
    MakeDirs path
  | GetPages "ustr option"
  | GetPageContent ustr
  | Download ustr ustr bool
  | WriteMetadata path metadata
  | WriteContent path ustr
  | LogTotal int

record env =
  udb :: unicode_db
  os_platform :: platform
  get_pages :: "ustr option \<Rightarrow> error + page list"
  get_page_content :: "ustr \<Rightarrow> error + page_content"
  now :: "nat \<Rightarrow> ustr"
  download_file :: "nat \<Rightarrow> ustr \<Rightarrow> ustr \<Rightarrow> bool \<Rightarrow> dl_outcome"
  makedirs_fails :: "path \<Rightarrow> bool"
  write_fails :: "path \<Rightarrow> bool"

text \<open>The mutable state of one run: the counter, how many times the clock has been read and
  how many downloads were attempted (the indices at which the collaborators are asked), and
  the trace.\<close>

record state =
  page_counter :: page_counter
  clock_reads :: nat
  download_calls :: nat
  trace :: "event list"

definition emit :: "event \<Rightarrow> state \<Rightarrow> state" where
  "emit e st = st\<lparr>trace := trace st @ [e]\<rparr>"

definition dir_exists :: "state \<Rightarrow> path \<Rightarrow> bool" where
  "dir_exists st p \<longleftrightarrow> MakeDirs p \<in> set (trace st)"

definition makedirs :: "env \<Rightarrow> path \<Rightarrow> state \<Rightarrow> error + state" where
  "makedirs E p st = (if makedirs_fails E p then Inl (OSError p) else Inr (emit (MakeDirs p) st))"

definition read_clock :: "env \<Rightarrow> state \<Rightarrow> ustr \<times> state" where
  "read_clock E st = (now E (clock_reads st), st\<lparr>clock_reads := clock_reads st + 1\<rparr>)"

definition attempt_download :: "env \<Rightarrow> ustr \<Rightarrow> ustr \<Rightarrow> bool \<Rightarrow> state \<Rightarrow> dl_outcome \<times> state" where
  "attempt_download E fid name is_inline st =
     (download_file E (download_calls st) fid name is_inline,
      emit (Download fid name is_inline) (st\<lparr>download_calls := download_calls st + 1\<rparr>))"

section \<open>Directory naming (\<^verbatim>\<open>_create_numbered_dir\<close>)\<close>

definition safe_subject :: "unicode_db \<Rightarrow> ustr \<Rightarrow> ustr" where
  "safe_subject db subj = map (\<lambda>c. if isalnum db c \<or> c \<in> {32, 45, 95} then c else 95) subj"

definition dir_name :: "unicode_db \<Rightarrow> ustr \<Rightarrow> int \<Rightarrow> ustr" where
  "dir_name db subj number = format_02d number @ [32] @ safe_subject db subj"

definition create_numbered_dir :: "env \<Rightarrow> path \<Rightarrow> ustr \<Rightarrow> int \<Rightarrow> state \<Rightarrow> error + (path \<times> state)" where
  "create_numbered_dir E base_path subj number st =
     (let full_path = base_path @ [dir_name (udb E) subj number]
      in case makedirs E full_path st of
           Inl e \<Rightarrow> Inl e
         | Inr st' \<Rightarrow> Inr (full_path, st'))"

section \<open>Content Rewriter (\<^verbatim>\<open>_process_inline_images\<close>)\<close>

subsection \<open>The regular expression\<close>

text \<open>
  The pattern is \<^verbatim>\<open>!\[(.*?)\]\(/wikis/(\d+)/files/(\d+)\)\<close>.  The matcher below does what the
  backtracking engine does for it at one start position: after the literal \<^verbatim>\<open>![\<close> the lazy
  group tries the shortest alt text first and extends it one character at a time, never over
  a newline (the dot excludes it); each \<^verbatim>\<open>\d+\<close> takes the longest run of decimal digits, and
  giving digits back cannot help, since the next pattern character is not a digit.
  The result holds the three groups and the input left after the match.
\<close>

fun strip_prefix :: "ustr \<Rightarrow> ustr \<Rightarrow> ustr option" where
  "strip_prefix [] s = Some s"
| "strip_prefix (p # ps) [] = None"
| "strip_prefix (p # ps) (c # cs) = (if p = c then strip_prefix ps cs else None)"

definition match_tail :: "unicode_db \<Rightarrow> ustr \<Rightarrow> (ustr \<times> ustr \<times> ustr) option" where
  "match_tail db u =
     (case strip_prefix (A ''](/wikis/'') u of
        None \<Rightarrow> None
      | Some u1 \<Rightarrow>
          let wiki_id = takeWhile (isdecimal db) u1; u2 = dropWhile (isdecimal db) u1
          in if wiki_id = [] then None
             else case strip_prefix (A ''/files/'') u2 of
                    None \<Rightarrow> None
                  | Some u3 \<Rightarrow>
                      let file_id = takeWhile (isdecimal db) u3; u4 = dropWhile (isdecimal db) u3
                      in if file_id = [] then None
                         else case strip_prefix (A '')'') u4 of
                                None \<Rightarrow> None
                              | Some rest \<Rightarrow> Some (wiki_id, file_id, rest))"

fun match_alt :: "unicode_db \<Rightarrow> ustr \<Rightarrow> ustr \<Rightarrow> (ustr \<times> ustr \<times> ustr \<times> ustr) option" where
  "match_alt db acc [] = None"
| "match_alt db acc (c # cs) =
     (case match_tail db (c # cs) of
        Some (wiki_id, file_id, rest) \<Rightarrow> Some (rev acc, wiki_id, file_id, rest)
      | None \<Rightarrow> if c = 10 then None else match_alt db (c # acc) cs)"

definition match_here :: "unicode_db \<Rightarrow> ustr \<Rightarrow> (ustr \<times> ustr \<times> ustr \<times> ustr) option" where
  "match_here db s =
     (case strip_prefix (A ''!['') s of None \<Rightarrow> None | Some t \<Rightarrow> match_alt db [] t)"

text \<open>The language of the pattern, stated without reference to the matcher: a string is an
  inline-image reference when it has the shape \<^verbatim>\<open>![alt](/wikis/W/files/F)\<close> with no newline in
  \<open>alt\<close> and \<open>W\<close>, \<open>F\<close> non-empty runs of decimal digits; a body contains one when some
  substring is one.\<close>

definition image_markup :: "ustr \<Rightarrow> ustr \<Rightarrow> ustr \<Rightarrow> ustr" where
  "image_markup alt wiki_id fid =
     A ''!['' @ alt @ A ''](/wikis/'' @ wiki_id @ A ''/files/'' @ fid @ A '')''"

definition is_image_markup :: "unicode_db \<Rightarrow> ustr \<Rightarrow> bool" where
  "is_image_markup db m \<longleftrightarrow>
     (\<exists>alt wiki_id fid. m = image_markup alt wiki_id fid \<and> 10 \<notin> set alt
        \<and> wiki_id \<noteq> [] \<and> list_all (isdecimal db) wiki_id
        \<and> fid \<noteq> [] \<and> list_all (isdecimal db) fid)"

definition contains_image_markup :: "unicode_db \<Rightarrow> ustr \<Rightarrow> bool" where
  "contains_image_markup db s \<longleftrightarrow> (\<exists>pre m post. s = pre @ m @ post \<and> is_image_markup db m)"

text \<open>The same question answered by running the matcher at every position.\<close>

fun has_match :: "unicode_db \<Rightarrow> ustr \<Rightarrow> bool" where
  "has_match db [] = False"
| "has_match db (c # cs) = (match_here db (c # cs) \<noteq> None \<or> has_match db cs)"

subsection \<open>A match consumes input\<close>

lemma strip_prefix_Some: "strip_prefix p s = Some r \<Longrightarrow> s = p @ r"
  by (induction p s rule: strip_prefix.induct) (auto split: if_splits)

lemma strip_prefix_append: "strip_prefix p (p @ r) = Some r"
  by (induction p) auto

lemma match_tail_Some:
  assumes "match_tail db u = Some (w, f, rest)"
  shows "u = A ''](/wikis/'' @ w @ A ''/files/'' @ f @ A '')'' @ rest
         \<and> w \<noteq> [] \<and> list_all (isdecimal db) w \<and> f \<noteq> [] \<and> list_all (isdecimal db) f"
proof -
  from assms obtain u1 where u1: "strip_prefix (A ''](/wikis/'') u = Some u1"
    by (auto simp: match_tail_def split: option.splits)
  let ?w = "takeWhile (isdecimal db) u1" and ?u2 = "dropWhile (isdecimal db) u1"
  from assms u1 have w: "?w \<noteq> []"
    by (auto simp: match_tail_def Let_def split: option.splits if_splits)
  from assms u1 w obtain u3 where u3: "strip_prefix (A ''/files/'') ?u2 = Some u3"
    by (auto simp: match_tail_def Let_def split: option.splits if_splits)
  let ?f = "takeWhile (isdecimal db) u3" and ?u4 = "dropWhile (isdecimal db) u3"
  from assms u1 w u3 have f: "?f \<noteq> []"
    by (auto simp: match_tail_def Let_def split: option.splits if_splits)
  from assms u1 w u3 f have r: "strip_prefix (A '')'') ?u4 = Some rest" and eq: "w = ?w" "f = ?f"
    by (auto simp: match_tail_def Let_def split: option.splits if_splits)
  have "u = A ''](/wikis/'' @ u1" using strip_prefix_Some[OF u1] .
  moreover have "u1 = ?w @ ?u2" by simp
  moreover have "?u2 = A ''/files/'' @ u3" using strip_prefix_Some[OF u3] .
  moreover have "u3 = ?f @ ?u4" by simp
  moreover have "?u4 = A '')'' @ rest" using strip_prefix_Some[OF r] .
  ultimately have "u = A ''](/wikis/'' @ ?w @ A ''/files/'' @ ?f @ A '')'' @ rest"
    by metis
  moreover have "list_all (isdecimal db) ?w" "list_all (isdecimal db) ?f"
    by (simp_all add: list_all_iff) (meson set_takeWhileD)+
  ultimately show ?thesis using w f eq by simp
qed

lemma match_alt_Some:
  "match_alt db acc u = Some (alt, w, f, rest) \<Longrightarrow>
   \<exists>a. alt = rev acc @ a \<and> 10 \<notin> set a \<and> match_tail db (drop (length a) u) = Some (w, f, rest)
       \<and> a = take (length a) u \<and> length a < length u"
proof (induction db acc u rule: match_alt.induct)
  case (1 db acc)
  then show ?case by simp
next
  case (2 db acc c cs)
  show ?case
  proof (cases "match_tail db (c # cs)")
    case (Some r)
    with "2.prems" have "alt = rev acc" "r = (w, f, rest)"
      by (auto split: prod.splits)
    with Some show ?thesis by (intro exI[of _ "[]"]) simp
  next
    case None
    with "2.prems" have c: "c \<noteq> 10" and m: "match_alt db (c # acc) cs = Some (alt, w, f, rest)"
      by (auto split: if_splits)
    from "2.IH"[OF None c m] obtain a where a: "alt = rev (c # acc) @ a" "10 \<notin> set a"
      "match_tail db (drop (length a) cs) = Some (w, f, rest)" "a = take (length a) cs"
      "length a < length cs"
      by blast
    show ?thesis
    proof (intro exI[of _ "c # a"] conjI)
      show "alt = rev acc @ c # a" using a(1) by simp
      show "10 \<notin> set (c # a)" using a(2) c by simp
      show "match_tail db (drop (length (c # a)) (c # cs)) = Some (w, f, rest)" using a(3) by simp
      show "c # a = take (length (c # a)) (c # cs)" using a(4) by simp
      show "length (c # a) < length (c # cs)" using a(5) by simp
    qed
  qed
qed

lemma match_here_Some:
  assumes "match_here db s = Some (alt, w, f, rest)"
  shows "s = image_markup alt w f @ rest \<and> 10 \<notin> set alt
         \<and> w \<noteq> [] \<and> list_all (isdecimal db) w \<and> f \<noteq> [] \<and> list_all (isdecimal db) f"
proof -
  from assms obtain t where t: "strip_prefix (A ''!['') s = Some t"
    and m: "match_alt db [] t = Some (alt, w, f, rest)"
    by (auto simp: match_here_def split: option.splits)
  from match_alt_Some[OF m] have a: "10 \<notin> set alt"
    "match_tail db (drop (length alt) t) = Some (w, f, rest)" "alt = take (length alt) t"
    by auto
  have "t = alt @ drop (length alt) t" using a(3) by (metis append_take_drop_id)
  moreover note match_tail_Some[OF a(2)] strip_prefix_Some[OF t]
  ultimately have "s = A ''!['' @ alt @ A ''](/wikis/'' @ w @ A ''/files/'' @ f @ A '')'' @ rest"
    by metis
  then show ?thesis using a(1) match_tail_Some[OF a(2)] by (simp add: image_markup_def)
qed

lemma match_here_shorter: "match_here db s = Some (alt, w, f, rest) \<Longrightarrow> length rest < length s"
  using match_here_Some[of db s alt w f rest] by (simp add: image_markup_def A_def)

subsection \<open>Substitution (\<^verbatim>\<open>re.sub\<close> with a callback)\<close>

text \<open>
  \<^verbatim>\<open>re.sub(pattern, repl, s)\<close> scans \<open>s\<close> from the left.  Where the pattern matches, the
  callback is called with the groups and its result goes to the output, and the scan goes on
  after the match; elsewhere one character is copied.  The callback has effects, so the
  state is threaded through the calls in the order of the matches.
\<close>

function re_sub ::
  "unicode_db \<Rightarrow> (ustr \<times> ustr \<times> ustr \<Rightarrow> 's \<Rightarrow> ustr \<times> 's) \<Rightarrow> ustr \<Rightarrow> 's \<Rightarrow> ustr \<times> 's" where
  "re_sub db repl s st =
     (case match_here db s of
        Some (g1, g2, g3, rest) \<Rightarrow>
          (let (r, st1) = repl (g1, g2, g3) st;
               (out, st2) = re_sub db repl rest st1
           in (r @ out, st2))
      | None \<Rightarrow>
          (case s of
             [] \<Rightarrow> ([], st)
           | c # cs \<Rightarrow> (let (out, st1) = re_sub db repl cs st in (c # out, st1))))"
  by pat_completeness auto
termination
  by (relation "measure (\<lambda>(db, repl, s, st). length s)") (auto simp: match_here_shorter)

subsection \<open>The replacement callback (\<^verbatim>\<open>replace_image\<close>)\<close>

definition sanitize_base :: "unicode_db \<Rightarrow> ustr \<Rightarrow> ustr" where
  "sanitize_base db base_name =
     map (\<lambda>c. if isalnum db c \<or> c \<in> {45, 95} then c else 95) base_name"

definition unique_filename :: "env \<Rightarrow> ustr \<Rightarrow> ustr \<Rightarrow> ustr" where
  "unique_filename E original_filename timestamp =
     (let (base_name, ext) = splitext (os_platform E) original_filename
      in sanitize_base (udb E) base_name @ A ''_'' @ timestamp @ ext)"

definition inline_filename :: "env \<Rightarrow> ustr \<Rightarrow> ustr \<Rightarrow> ustr \<Rightarrow> ustr" where
  "inline_filename E alt_text file_id timestamp =
     (let original_filename =
            (if strip (udb E) alt_text = [] then A ''image_'' @ file_id @ A ''.png''
             else strip (udb E) alt_text)
      in unique_filename E original_filename timestamp)"

text \<open>The Korean words of the markers, as code points: "download failed", "processing
  error", "attachments" and "size".\<close>

definition download_failed :: ustr where
  "download_failed = [45796, 50868, 47196, 46300, 32, 49892, 54056]"

definition processing_error :: ustr where
  "processing_error = [52376, 47532, 32, 50724, 47448]"

definition attachments_heading :: ustr where
  "attachments_heading = [52392, 48512, 32, 54028, 51068]"

definition size_word :: ustr where
  "size_word = [53356, 44592]"

definition replace_image :: "env \<Rightarrow> ustr \<times> ustr \<times> ustr \<Rightarrow> state \<Rightarrow> ustr \<times> state" where
  "replace_image E m st =
     (case m of (alt_text, wiki_id, file_id) \<Rightarrow>
        let (timestamp, st1) = read_clock E st;
            name = inline_filename E alt_text file_id timestamp;
            (outcome, st2) = attempt_download E file_id name True st1
        in (case outcome of
              Fetched \<Rightarrow> A ''!['' @ alt_text @ A ''](images/'' @ name @ A '')''
            | NoFile \<Rightarrow> A ''!['' @ alt_text @ A ''] ('' @ download_failed @ A '' - Wiki ID: ''
                          @ wiki_id @ A '', File ID: '' @ file_id @ A '')''
            | Raised \<Rightarrow> A ''!['' @ alt_text @ A ''] ('' @ processing_error @ A '' - Wiki ID: ''
                          @ wiki_id @ A '', File ID: '' @ file_id @ A '')'',
            st2))"

definition process_inline_images :: "env \<Rightarrow> ustr \<Rightarrow> path \<Rightarrow> state \<Rightarrow> error + (ustr \<times> state)" where
  "process_inline_images E content page_path st =
     (case makedirs E (page_path @ [A ''images'']) st of
        Inl e \<Rightarrow> Inl e
      | Inr st1 \<Rightarrow> Inr (re_sub (udb E) (replace_image E) content st1))"

subsection \<open>The matches of a body, for stating what the rewriting does to each\<close>

text \<open>
  \<open>segments\<close> lists what the scan of \<^verbatim>\<open>re.sub\<close> meets, in order: the matches, and the
  characters outside them.  \<open>image_outcome\<close> is what the downloader answers when asked for a
  match in a given state, and \<open>run_segments\<close> pairs every segment with that answer and with
  the text that replaces it.
\<close>

datatype segment = Text uchar | Image ustr ustr ustr

function segments :: "unicode_db \<Rightarrow> ustr \<Rightarrow> segment list" where
  "segments db s =
     (case match_here db s of
        Some (g1, g2, g3, rest) \<Rightarrow> Image g1 g2 g3 # segments db rest
      | None \<Rightarrow> (case s of [] \<Rightarrow> [] | c # cs \<Rightarrow> Text c # segments db cs))"
  by pat_completeness auto
termination
  by (relation "measure (\<lambda>(db, s). length s)") (auto simp: match_here_shorter)

fun segment_source :: "segment \<Rightarrow> ustr" where
  "segment_source (Text c) = [c]"
| "segment_source (Image alt wiki_id fid) = image_markup alt wiki_id fid"

definition image_outcome :: "env \<Rightarrow> ustr \<times> ustr \<times> ustr \<Rightarrow> state \<Rightarrow> dl_outcome" where
  "image_outcome E m st =
     (case m of (alt_text, wiki_id, fid) \<Rightarrow>
        download_file E (download_calls st) fid
          (inline_filename E alt_text fid (now E (clock_reads st))) True)"

fun run_segments ::
  "env \<Rightarrow> segment list \<Rightarrow> state \<Rightarrow> (segment \<times> dl_outcome option \<times> ustr) list \<times> state" where
  "run_segments E [] st = ([], st)"
| "run_segments E (Text c # segs) st =
     (let (rep, st') = run_segments E segs st in ((Text c, None, [c]) # rep, st'))"
| "run_segments E (Image alt wiki_id fid # segs) st =
     (let (r, st1) = replace_image E (alt, wiki_id, fid) st;
          (rep, st2) = run_segments E segs st1
      in ((Image alt wiki_id fid, Some (image_outcome E (alt, wiki_id, fid) st), r) # rep, st2))"

section \<open>Page Materializer (\<^verbatim>\<open>_process_attachments\<close>, \<^verbatim>\<open>_save_page\<close>)\<close>

text \<open>The loop over the attachment descriptors.  Each iteration is one \<^verbatim>\<open>try\<close> block: whatever
  happens to the download, a line is appended and the loop goes on.\<close>

fun attachment_loop :: "env \<Rightarrow> attachment list \<Rightarrow> state \<Rightarrow> ustr list \<times> state" where
  "attachment_loop E [] st = ([], st)"
| "attachment_loop E (file # rest) st =
     (let original_name = att_name file;
          (timestamp, st1) = read_clock E st;
          name = unique_filename E original_name timestamp;
          (outcome, st2) = attempt_download E (att_id file) name False st1;
          size_note = A '' ('' @ size_word @ A '': '' @ str_int (att_size file) @ A '' bytes)'' @ [10];
          link = (case outcome of
                    Fetched \<Rightarrow> A ''- ['' @ original_name @ A ''](attachments/'' @ name @ A '')''
                                 @ size_note
                  | NoFile \<Rightarrow> A ''- '' @ original_name @ A '' ('' @ download_failed @ A '')''
                                 @ size_note
                  | Raised \<Rightarrow> A ''- '' @ original_name @ A '' ('' @ processing_error @ A '')''
                                 @ size_note);
          (links, st3) = attachment_loop E rest st2
      in (link # links, st3))"

definition process_attachments ::
  "env \<Rightarrow> attachment list \<Rightarrow> path \<Rightarrow> state \<Rightarrow> error + (ustr list \<times> state)" where
  "process_attachments E fs page_path st =
     (if fs = [] then Inr ([], st)
      else case makedirs E (page_path @ [A ''attachments'']) st of
             Inl e \<Rightarrow> Inl e
           | Inr st1 \<Rightarrow> Inr (attachment_loop E fs st1))"

definition write_metadata :: "env \<Rightarrow> path \<Rightarrow> metadata \<Rightarrow> state \<Rightarrow> error + state" where
  "write_metadata E p md st =
     (if write_fails E p then Inl (OSError p) else Inr (emit (WriteMetadata p md) st))"

definition write_content :: "env \<Rightarrow> path \<Rightarrow> ustr \<Rightarrow> state \<Rightarrow> error + state" where
  "write_content E p content st =
     (if write_fails E p then Inl (OSError p) else Inr (emit (WriteContent p content) st))"

definition save_page :: "env \<Rightarrow> page \<Rightarrow> page_content \<Rightarrow> path \<Rightarrow> state \<Rightarrow> error + state" where
  "save_page E page_data content_data page_path st =
     (let title = subject page_data;
          content = A ''# '' @ title @ [10, 10] @ body_content content_data
      in case process_inline_images E content page_path st of
           Inl e \<Rightarrow> Inl e
         | Inr (content1, st1) \<Rightarrow>
             (case process_attachments E (files content_data) page_path st1 of
                Inl e \<Rightarrow> Inl e
              | Inr (attachment_links, st2) \<Rightarrow>
                  let content2 =
                        (if attachment_links \<noteq> []
                         then content1 @ [10, 10] @ A ''## '' @ attachments_heading @ [10]
                                @ concat attachment_links
                         else content1);
                      md = \<lparr>md_id = page_id page_data, md_subject = title,
                            md_mimeType = mimeType content_data,
                            md_createdAt = createdAt content_data,
                            md_parentPageId = parentPageId page_data,
                            md_attachments = files content_data\<rparr>
                  in case write_metadata E (page_path @ [A ''metadata.json'']) md st2 of
                       Inl e \<Rightarrow> Inl e
                     | Inr st3 \<Rightarrow> write_content E (page_path @ [A ''content.md'']) content2 st3))"

section \<open>Traversal Engine (\<^verbatim>\<open>backup_recursive\<close>, \<^verbatim>\<open>backup\<close>)\<close>

text \<open>
  \<^verbatim>\<open>backup_recursive\<close> calls itself once per page, so a deep (or cyclic) answer of the API
  collaborator exhausts the interpreter's call stack, which raises \<^verbatim>\<open>RecursionError\<close>.  The
  first argument after the environment is the number of nested calls the stack still allows.
  \<open>backup_loop\<close> is the \<^verbatim>\<open>for\<close> loop over the pages of one level.
\<close>

definition parent_key :: "ustr option \<Rightarrow> ustr" where
  "parent_key parent_page_id =
     (case parent_page_id of None \<Rightarrow> A ''root'' | Some p \<Rightarrow> if p = [] then A ''root'' else p)"

fun backup_recursive :: "env \<Rightarrow> nat \<Rightarrow> ustr option \<Rightarrow> path \<Rightarrow> state \<Rightarrow> error + state"
and backup_loop :: "env \<Rightarrow> nat \<Rightarrow> ustr option \<Rightarrow> path \<Rightarrow> page list \<Rightarrow> state \<Rightarrow> error + state"
where
  "backup_recursive E 0 parent_page_id base_path st = Inl RecursionError"
| "backup_recursive E (Suc depth) parent_page_id base_path st =
     (if count (page_counter st) \<ge> limit (page_counter st) \<and> limit (page_counter st) \<noteq> - 1
      then Inr st
      else case get_pages E parent_page_id of
             Inl e \<Rightarrow> Inl e
           | Inr pages \<Rightarrow> backup_loop E depth parent_page_id base_path pages
                            (emit (GetPages parent_page_id) st))"
| "backup_loop E depth parent_page_id base_path [] st = Inr st"
| "backup_loop E depth parent_page_id base_path (pg # pages) st =
     (let (c1, ok) = increment (page_counter st)
      in if \<not> ok then Inr (st\<lparr>page_counter := c1\<rparr>)
         else
           let (c2, current_number) = get_next_number c1 (parent_key parent_page_id);
               st1 = st\<lparr>page_counter := c2\<rparr>
           in case create_numbered_dir E base_path (subject pg) current_number st1 of
                Inl e \<Rightarrow> Inl e
              | Inr (page_path, st2) \<Rightarrow>
                  (case get_page_content E (page_id pg) of
                     Inl e \<Rightarrow> Inl e
                   | Inr page_content \<Rightarrow>
                       (case save_page E pg page_content page_path
                               (emit (GetPageContent (page_id pg)) st2) of
                          Inl e \<Rightarrow> Inl e
                        | Inr st3 \<Rightarrow>
                            (case backup_recursive E depth (Some (page_id pg)) page_path st3 of
                               Inl e \<Rightarrow> Inl e
                             | Inr st4 \<Rightarrow> backup_loop E depth parent_page_id base_path pages st4))))"

definition init_state :: "int \<Rightarrow> state" where
  "init_state page_limit =
     \<lparr>page_counter = PageCounter page_limit, clock_reads = 0, download_calls = 0, trace = []\<rparr>"

definition backup :: "env \<Rightarrow> nat \<Rightarrow> ustr \<Rightarrow> path \<Rightarrow> state \<Rightarrow> error + state" where
  "backup E depth project_code backup_dir st =
     (case get_pages E None of
        Inl e \<Rightarrow> Inl e
      | Inr root_pages \<Rightarrow>
          (case root_pages of
             [] \<Rightarrow> Inl ValueError
           | root_page # _ \<Rightarrow>
               (case get_page_content E (page_id root_page) of
                  Inl e \<Rightarrow> Inl e
                | Inr root_content \<Rightarrow>
                    (case create_numbered_dir E backup_dir project_code 1
                            (emit (GetPageContent (page_id root_page)) (emit (GetPages None) st)) of
                       Inl e \<Rightarrow> Inl e
                     | Inr (root_path, st1) \<Rightarrow>
                         let (c1, ok) = increment (page_counter st1);
                             (c2, n) = get_next_number c1 (A ''root'');
                             st2 = st1\<lparr>page_counter := c2\<rparr>
                         in case save_page E root_page root_content root_path st2 of
                              Inl e \<Rightarrow> Inl e
                            | Inr st3 \<Rightarrow>
                                (case backup_recursive E depth (Some (page_id root_page)) root_path st3 of
                                   Inl e \<Rightarrow> Inl e
                                 | Inr st4 \<Rightarrow>
                                     Inr (emit (LogTotal (count (page_counter st4))) st4))))))"

text \<open>What a trace says was done: the pages materialized (the directories into which a
  \<^verbatim>\<open>content.md\<close> was written, which is the last step of \<^verbatim>\<open>_save_page\<close>), the parents whose
  children were asked for, the pages whose content was asked for, and the totals logged.\<close>

fun materialized :: "event list \<Rightarrow> path list" where
  "materialized [] = []"
| "materialized (WriteContent p c # es) = butlast p # materialized es"
| "materialized (e # es) = materialized es"

fun listed :: "event list \<Rightarrow> ustr option list" where
  "listed [] = []"
| "listed (GetPages parent # es) = parent # listed es"
| "listed (e # es) = listed es"

fun fetched :: "event list \<Rightarrow> ustr list" where
  "fetched [] = []"
| "fetched (GetPageContent p # es) = p # fetched es"
| "fetched (e # es) = fetched es"

fun reported :: "event list \<Rightarrow> int list" where
  "reported [] = []"
| "reported (LogTotal n # es) = n # reported es"
| "reported (e # es) = reported es"

section \<open>A small concrete wiki\<close>

text \<open>
  Concrete collaborators on which the definitions can be run: a root page \<open>A\<close> with the two
  children \<open>B\<close> and \<open>C\<close> (in that order), of which \<open>B\<close> has a child \<open>D\<close>; a clock that
  answers \<open>T0\<close>, \<open>T1\<close>, \<dots>; a downloader whose first attempt finds no file, whose second
  raises and whose later ones succeed; a file system on which nothing fails.
\<close>

definition ascii_db :: unicode_db where
  "ascii_db = \<lparr>alpha_hi = (\<lambda>c. False), decimal_hi = (\<lambda>c. False), digit_hi = (\<lambda>c. False),
               numeric_hi = (\<lambda>c. False), space_hi = (\<lambda>c. False)\<rparr>"

definition demo_page :: "string \<Rightarrow> string \<Rightarrow> ustr option \<Rightarrow> page" where
  "demo_page i title parent = \<lparr>page_id = A i, subject = A title, parentPageId = parent\<rparr>"

definition demo_pages :: "ustr option \<Rightarrow> error + page list" where
  "demo_pages parent =
     (if parent = None then Inr [demo_page ''A'' ''Home'' None]
      else if parent = Some (A ''A'')
        then Inr [demo_page ''B'' ''a/b: c'' (Some (A ''A'')), demo_page ''C'' ''Notes'' (Some (A ''A''))]
      else if parent = Some (A ''B'') then Inr [demo_page ''D'' ''Deep'' (Some (A ''B''))]
      else Inr [])"

definition demo_content :: "ustr \<Rightarrow> error + page_content" where
  "demo_content pid =
     Inr \<lparr>body_content = (if pid = A ''B'' then A ''see ![diagram](/wikis/10/files/20)'' else A ''text''),
          mimeType = A ''text/x-markdown'', createdAt = A ''2024-01-01'', files = []\<rparr>"

definition demo_env :: env where
  "demo_env =
     \<lparr>udb = ascii_db, os_platform = Windows,
      get_pages = demo_pages, get_page_content = demo_content,
      now = (\<lambda>n. 84 # dec_nat n),
      download_file = (\<lambda>n fid name is_inline. if n = 0 then NoFile else if n = 1 then Raised else Fetched),
      makedirs_fails = (\<lambda>p. False), write_fails = (\<lambda>p. False)\<rparr>"

section \<open>Properties of the Ordinal Counter\<close>

lemma increment_calls_gen:
  "limit c \<noteq> - 1 \<Longrightarrow>
   increment_calls n c = replicate (min n (nat (limit c - count c))) True @ replicate (n - nat (limit c - count c)) False"
proof (induction n arbitrary: c)
  case 0 then show ?case by simp
next
  case (Suc n)
  let ?c' = "c\<lparr>count := count c + 1\<rparr>"
  have IH: "increment_calls n ?c' = replicate (min n (nat (limit c - (count c + 1)))) True @ replicate (n - nat (limit c - (count c + 1))) False"
    using Suc.IH[of ?c'] Suc.prems by simp
  show ?case
  proof (cases "count c < limit c")
    case True
    then have "nat (limit c - count c) = Suc (nat (limit c - (count c + 1)))" by simp
    then show ?thesis using True IH by (simp add: increment_def Let_def)
  next
    case False
    then have "nat (limit c - count c) = 0" "nat (limit c - (count c + 1)) = 0" by simp_all
    then show ?thesis using False IH Suc.prems by (simp add: increment_def Let_def)
  qed
qed

lemma increment_calls_unlimited:
  "limit c = - 1 \<Longrightarrow> increment_calls n c = replicate n True"
  by (induction n arbitrary: c) (simp_all add: increment_def Let_def)

text \<open>
  Claim C3.  Each call of \<open>increment\<close> adds exactly one to the total count (and touches
  neither the limit nor the sibling counters) and returns true if and only if the limit is
  the unlimited sentinel \<open>-1\<close> or the new count is at most the limit.  In particular, on a
  fresh counter with limit \<open>L \<ge> 0\<close>, any \<open>n\<close> successive calls return true for the first
  \<open>L\<close> of them and false for every later one.
\<close>

theorem increment_spec:
  "count (fst (increment c)) = count c + 1
   \<and> limit (fst (increment c)) = limit c
   \<and> level_counters (fst (increment c)) = level_counters c
   \<and> (snd (increment c) \<longleftrightarrow> limit c = - 1 \<or> count c + 1 \<le> limit c)
   \<and> (0 \<le> L \<longrightarrow>
        increment_calls n (PageCounter L)
          = replicate (min n (nat L)) True @ replicate (n - nat L) False)"
proof -
  have "increment_calls n (PageCounter L)
          = replicate (min n (nat L)) True @ replicate (n - nat L) False" if "0 \<le> L"
    using increment_calls_gen[of "PageCounter L" n] that by (simp add: PageCounter_def)
  then show ?thesis by (simp add: increment_def Let_def)
qed

theorem increment_spec_witness:
  "(0::int) \<le> 2 \<and> increment_calls 4 (PageCounter 2) = [True, True, False, False]"
  using increment_spec[of "PageCounter 2" 2 4] by (simp add: numeral_eq_Suc)

lemma number_calls_gen:
  "map snd (filter (\<lambda>(k', n). k' = k) (zip ks (number_calls ks c)))
     = map (\<lambda>j. getitem_default (level_counters c) k + int j) [1..<Suc (count_list ks k)]"
proof (induction ks arbitrary: c)
  case Nil then show ?case by simp
next
  case (Cons a ks)
  let ?c' = "fst (get_next_number c a)"
  have lc: "getitem_default (level_counters ?c') k = (if a = k then getitem_default (level_counters c) k + 1 else getitem_default (level_counters c) k)"
    by (simp add: get_next_number_def Let_def getitem_default_def)
  have r: "snd (get_next_number c a) = getitem_default (level_counters c) a + 1"
    by (simp add: get_next_number_def Let_def getitem_default_def)
  have nc: "number_calls (a # ks) c = snd (get_next_number c a) # number_calls ks ?c'"
    by (simp add: case_prod_beta Let_def)
  show ?case
  proof (cases "a = k")
    case True
    have "[1..<Suc (Suc (count_list ks k))] = 1 # map Suc [1..<Suc (count_list ks k)]"
      by (metis One_nat_def map_Suc_upt upt_conv_Cons zero_less_Suc Suc_less_eq)
    then show ?thesis using True Cons.IH[of ?c'] lc r unfolding nc
      by (simp add: o_def del: upt_Suc)
  next
    case False
    then show ?thesis using Cons.IH[of ?c'] lc unfolding nc by simp
  qed
qed

lemma number_calls_above:
  "(k, n) \<in> set (zip ks (number_calls ks c)) \<Longrightarrow> getitem_default (level_counters c) k < n"
proof (induction ks arbitrary: c)
  case Nil then show ?case by simp
next
  case (Cons a ks)
  let ?c' = "fst (get_next_number c a)"
  have lc: "getitem_default (level_counters c) k \<le> getitem_default (level_counters ?c') k"
    by (simp add: get_next_number_def Let_def getitem_default_def)
  have r: "snd (get_next_number c a) = getitem_default (level_counters c) a + 1"
    by (simp add: get_next_number_def Let_def getitem_default_def)
  have nc: "number_calls (a # ks) c = snd (get_next_number c a) # number_calls ks ?c'"
    by (simp add: case_prod_beta Let_def)
  from Cons.prems have "(k, n) = (a, snd (get_next_number c a)) \<or> (k, n) \<in> set (zip ks (number_calls ks ?c'))"
    unfolding nc by simp
  then show ?case
  proof
    assume "(k, n) = (a, snd (get_next_number c a))"
    then show ?thesis using r by simp
  next
    assume "(k, n) \<in> set (zip ks (number_calls ks ?c'))"
    from Cons.IH[OF this] lc show ?thesis by linarith
  qed
qed

lemma number_calls_distinct: "distinct (zip ks (number_calls ks c))"
proof (induction ks arbitrary: c)
  case Nil then show ?case by simp
next
  case (Cons a ks)
  let ?c' = "fst (get_next_number c a)"
  have lc: "getitem_default (level_counters ?c') a = getitem_default (level_counters c) a + 1"
    by (simp add: get_next_number_def Let_def getitem_default_def)
  have r: "snd (get_next_number c a) = getitem_default (level_counters c) a + 1"
    by (simp add: get_next_number_def Let_def getitem_default_def)
  have nc: "number_calls (a # ks) c = snd (get_next_number c a) # number_calls ks ?c'"
    by (simp add: case_prod_beta Let_def)
  have "(a, snd (get_next_number c a)) \<notin> set (zip ks (number_calls ks ?c'))"
    using number_calls_above[of a "snd (get_next_number c a)" ks ?c'] lc r by auto
  then show ?case unfolding nc using Cons.IH[of ?c'] by simp
qed

text \<open>
  Claim C4.  For any sequence \<open>ks\<close> of parent keys passed to \<open>get_next_number\<close> on a fresh
  counter, the numbers returned for the calls with a given key \<open>k\<close>, in call order, are exactly
  \<open>1, 2, \<dots>, m\<close> where \<open>m\<close> is how often \<open>k\<close> was asked, whatever other keys are interleaved;
  and no (key, number) pair is ever handed out twice.
\<close>

theorem get_next_number_contiguous:
  "map snd (filter (\<lambda>(k', n). k' = k) (zip ks (number_calls ks (PageCounter L))))
     = map int [1..<Suc (count_list ks k)]
   \<and> distinct (zip ks (number_calls ks (PageCounter L)))"
  using number_calls_gen[of k ks "PageCounter L"] number_calls_distinct[of ks "PageCounter L"]
  by (simp add: PageCounter_def getitem_default_def)

section \<open>Properties of directory naming\<close>

declare dec_nat.simps [simp del]

lemma dec_nat_digits: "d \<in> set (dec_nat n) \<Longrightarrow> 48 \<le> d \<and> d \<le> 57"
proof (induction n arbitrary: d rule: dec_nat.induct)
  case (1 n)
  show ?case
  proof (cases "n < 10")
    case True
    with "1.prems" show ?thesis by (simp add: dec_nat.simps[of n])
  next
    case False
    with "1.prems" have "d \<in> set (dec_nat (n div 10)) \<or> d = 48 + n mod 10"
      by (auto simp: dec_nat.simps[of n])
    then show ?thesis
    proof
      assume "d \<in> set (dec_nat (n div 10))"
      with "1.IH" False show ?thesis by simp
    next
      assume "d = 48 + n mod 10"
      moreover have "n mod 10 < 10" by simp
      ultimately show ?thesis by linarith
    qed
  qed
qed

lemma read_dec_snoc: "read_dec (s @ [d]) = 10 * read_dec s + (d - 48)"
  by (simp add: read_dec_def)

lemma read_dec_dec_nat: "read_dec (dec_nat n) = n"
proof (induction n rule: dec_nat.induct)
  case (1 n)
  show ?case
  proof (cases "n < 10")
    case True
    then show ?thesis by (simp add: dec_nat.simps[of n] read_dec_def)
  next
    case False
    with "1.IH" have "read_dec (dec_nat (n div 10)) = n div 10" by simp
    with False show ?thesis by (simp add: dec_nat.simps[of n] read_dec_snoc)
  qed
qed

lemma read_dec_zeros: "read_dec (replicate k 48 @ s) = read_dec s"
  by (induction k) (simp_all add: read_dec_def)

lemma dec_nat_nonempty: "dec_nat n \<noteq> []"
  by (simp add: dec_nat.simps[of n])

lemma dec_nat_small: "n < 10 \<Longrightarrow> dec_nat n = [48 + n]"
  by (simp add: dec_nat.simps[of n])

lemma dec_nat_long: "10 \<le> n \<Longrightarrow> 2 \<le> length (dec_nat n)"
proof -
  assume a: "10 \<le> n"
  have "length (dec_nat (n div 10)) \<ge> 1"
    using dec_nat_nonempty[of "n div 10"] by (cases "dec_nat (n div 10)") simp_all
  with a show ?thesis by (simp add: dec_nat.simps[of n])
qed

lemma format_02d_small: "0 \<le> i \<Longrightarrow> i < 10 \<Longrightarrow> format_02d i = [48, 48 + nat i]"
  by (simp add: format_02d_def dec_nat_small numeral_2_eq_2)

lemma format_02d_large: "10 \<le> i \<Longrightarrow> format_02d i = dec_nat (nat i)"
  using dec_nat_long[of "nat i"] by (simp add: format_02d_def)

lemma format_02d_chars: "d \<in> set (format_02d i) \<Longrightarrow> d = 45 \<or> (48 \<le> d \<and> d \<le> 57)"
  by (auto simp: format_02d_def dest: dec_nat_digits split: if_splits)

lemma format_02d_nonneg_digits: "0 \<le> i \<Longrightarrow> d \<in> set (format_02d i) \<Longrightarrow> 48 \<le> d \<and> d \<le> 57"
  by (auto simp: format_02d_def dest: dec_nat_digits split: if_splits)

lemma format_02d_read: "0 \<le> i \<Longrightarrow> int (read_dec (format_02d i)) = i"
  by (simp add: format_02d_def read_dec_zeros read_dec_dec_nat)

lemma format_02d_length: "0 \<le> i \<Longrightarrow> 2 \<le> length (format_02d i)"
  by (simp add: format_02d_def)

lemma ascii_digit_alnum: "48 \<le> d \<Longrightarrow> d \<le> 57 \<Longrightarrow> isalnum db d"
  by (simp add: isalnum_def isdecimal_def)

lemma isalnum_not_sep: "\<not> isalnum db 47" "\<not> isalnum db 92"
  by (simp_all add: isalnum_def isalpha_def isdecimal_def isdigit_def isnumeric_def)

lemma safe_subject_chars: "c \<in> set (safe_subject db subj) \<Longrightarrow> isalnum db c \<or> c = 32 \<or> c = 45 \<or> c = 95"
  by (auto simp: safe_subject_def split: if_splits)

lemma dir_name_chars:
  "c \<in> set (dir_name db subj number) \<Longrightarrow> isalnum db c \<or> c = 32 \<or> c = 45 \<or> c = 95"
  unfolding dir_name_def
  using format_02d_chars[of c number] safe_subject_chars[of c db subj] ascii_digit_alnum[of c db]
  by auto

text \<open>
  Claim C7.  The directory name is the formatted number, a space, and the title in which
  every character that is not alphanumeric, a space, \<open>-\<close> or \<open>_\<close> is replaced by \<open>_\<close> (the
  title keeps its length and its other characters).  For a number from 0 on, the formatted
  number consists of at least two decimal digits that read back as the number: a leading
  zero below 10, the plain decimal numeral from 10 on.  The name contains neither \<open>/\<close> nor
  \<open>\\<close>, and indeed only alphanumeric characters, spaces, \<open>-\<close> and \<open>_\<close>; the directory created
  is the base path extended by that one name.
\<close>

theorem create_numbered_dir_name:
  "dir_name (udb E) subj number = format_02d number @ [32] @ safe_subject (udb E) subj
   \<and> length (safe_subject (udb E) subj) = length subj
   \<and> (\<forall>i < length subj. safe_subject (udb E) subj ! i =
         (if isalnum (udb E) (subj ! i) \<or> subj ! i = 32 \<or> subj ! i = 45 \<or> subj ! i = 95
          then subj ! i else 95))
   \<and> (0 \<le> number \<longrightarrow>
         2 \<le> length (format_02d number)
         \<and> (\<forall>d \<in> set (format_02d number). 48 \<le> d \<and> d \<le> 57)
         \<and> int (read_dec (format_02d number)) = number
         \<and> (number < 10 \<longrightarrow> format_02d number = [48, 48 + nat number])
         \<and> (10 \<le> number \<longrightarrow> format_02d number = dec_nat (nat number)))
   \<and> 47 \<notin> set (dir_name (udb E) subj number)
   \<and> 92 \<notin> set (dir_name (udb E) subj number)
   \<and> (\<forall>c \<in> set (dir_name (udb E) subj number). isalnum (udb E) c \<or> c = 32 \<or> c = 45 \<or> c = 95)
   \<and> (\<not> makedirs_fails E (base_path @ [dir_name (udb E) subj number]) \<longrightarrow>
         create_numbered_dir E base_path subj number st
           = Inr (base_path @ [dir_name (udb E) subj number],
                  emit (MakeDirs (base_path @ [dir_name (udb E) subj number])) st))"
proof -
  have a: "\<forall>i < length subj. safe_subject (udb E) subj ! i =
         (if isalnum (udb E) (subj ! i) \<or> subj ! i = 32 \<or> subj ! i = 45 \<or> subj ! i = 95
          then subj ! i else 95)"
    by (simp add: safe_subject_def)
  have b: "0 \<le> number \<longrightarrow>
         2 \<le> length (format_02d number)
         \<and> (\<forall>d \<in> set (format_02d number). 48 \<le> d \<and> d \<le> 57)
         \<and> int (read_dec (format_02d number)) = number
         \<and> (number < 10 \<longrightarrow> format_02d number = [48, 48 + nat number])
         \<and> (10 \<le> number \<longrightarrow> format_02d number = dec_nat (nat number))"
    using format_02d_length format_02d_nonneg_digits format_02d_read format_02d_small format_02d_large
    by blast
  have c: "\<forall>c \<in> set (dir_name (udb E) subj number). isalnum (udb E) c \<or> c = 32 \<or> c = 45 \<or> c = 95"
    using dir_name_chars by blast
  have d: "47 \<notin> set (dir_name (udb E) subj number)" "92 \<notin> set (dir_name (udb E) subj number)"
    using dir_name_chars[of 47 "udb E" subj number] dir_name_chars[of 92 "udb E" subj number]
      isalnum_not_sep[of "udb E"] by auto
  have e: "\<not> makedirs_fails E (base_path @ [dir_name (udb E) subj number]) \<longrightarrow>
         create_numbered_dir E base_path subj number st
           = Inr (base_path @ [dir_name (udb E) subj number],
                  emit (MakeDirs (base_path @ [dir_name (udb E) subj number])) st)"
    by (simp add: create_numbered_dir_def makedirs_def Let_def)
  have f: "length (safe_subject (udb E) subj) = length subj" by (simp add: safe_subject_def)
  show ?thesis using a b c d e f by (simp add: dir_name_def)
qed

section \<open>Properties of the Content Rewriter\<close>

declare re_sub.simps [simp del] segments.simps [simp del]

lemma A_Nil [simp]: "A [] = []" by (simp add: A_def)
lemma A_Cons: "A (c # cs) = of_char c # A cs" by (simp add: A_def)

lemma not_decimal_punct: "\<not> isdecimal db 47" "\<not> isdecimal db 41" "\<not> isdecimal db 46" "\<not> isdecimal db 92"
  by (simp_all add: isdecimal_def)

lemma takeWhile_run: "list_all P w \<Longrightarrow> \<not> P x \<Longrightarrow> takeWhile P (w @ x # r) = w"
  by (induction w) auto

lemma dropWhile_run: "list_all P w \<Longrightarrow> \<not> P x \<Longrightarrow> dropWhile P (w @ x # r) = x # r"
  by (induction w) auto

lemma match_tail_complete:
  assumes "w \<noteq> []" "list_all (isdecimal db) w" "f \<noteq> []" "list_all (isdecimal db) f"
  shows "match_tail db (A ''](/wikis/'' @ w @ A ''/files/'' @ f @ A '')'' @ post) = Some (w, f, post)"
proof -
  have files: "A ''/files/'' @ f @ A '')'' @ post = 47 # (A ''files/'' @ f @ A '')'' @ post)"
    by (simp add: A_def)
  have close: "A '')'' @ post = 41 # post" by (simp add: A_def)
  have t1: "takeWhile (isdecimal db) (w @ A ''/files/'' @ f @ A '')'' @ post) = w"
    and d1: "dropWhile (isdecimal db) (w @ A ''/files/'' @ f @ A '')'' @ post)
             = A ''/files/'' @ f @ A '')'' @ post"
    unfolding files using assms(2) not_decimal_punct(1)[of db]
    by (simp_all add: takeWhile_run dropWhile_run)
  have t2: "takeWhile (isdecimal db) (f @ A '')'' @ post) = f"
    and d2: "dropWhile (isdecimal db) (f @ A '')'' @ post) = A '')'' @ post"
    unfolding close using assms(4) not_decimal_punct(2)[of db]
    by (simp_all add: takeWhile_run dropWhile_run)
  have s3: "strip_prefix (A '')'') (A '')'' @ post) = Some post" by (rule strip_prefix_append)
  show ?thesis
    unfolding match_tail_def
    by (simp only: strip_prefix_append option.case Let_def t1 d1 t2 d2 s3 assms(1) assms(3) if_False)
qed

lemma match_tail_Nil [simp]: "match_tail db [] = None"
  by (simp add: match_tail_def A_def)

lemma match_alt_complete:
  "10 \<notin> set alt \<Longrightarrow> match_tail db u = Some r \<Longrightarrow> match_alt db acc (alt @ u) \<noteq> None"
proof (induction alt arbitrary: acc)
  case Nil
  then obtain c cs where "u = c # cs" by (cases u) auto
  with Nil show ?case by (auto split: prod.splits)
next
  case (Cons a alt)
  then show ?case by (cases "match_tail db (a # alt @ u)") (auto split: prod.splits)
qed

lemma match_here_complete:
  assumes "10 \<notin> set alt" "w \<noteq> []" "list_all (isdecimal db) w" "f \<noteq> []" "list_all (isdecimal db) f"
  shows "match_here db (image_markup alt w f @ post) \<noteq> None"
proof -
  have "image_markup alt w f @ post
        = A ''!['' @ (alt @ (A ''](/wikis/'' @ w @ A ''/files/'' @ f @ A '')'' @ post))"
    by (simp add: image_markup_def)
  then have "match_here db (image_markup alt w f @ post)
        = match_alt db [] (alt @ (A ''](/wikis/'' @ w @ A ''/files/'' @ f @ A '')'' @ post))"
    unfolding match_here_def by (simp only: strip_prefix_append option.case)
  then show ?thesis
    using match_alt_complete[OF assms(1) match_tail_complete[OF assms(2-5)], of "[]" post] by simp
qed

lemma match_here_Nil [simp]: "match_here db [] = None"
  by (simp add: match_here_def A_def)

lemma has_match_here: "match_here db s \<noteq> None \<Longrightarrow> has_match db s"
  by (cases s) auto

lemma has_match_append: "has_match db s \<Longrightarrow> has_match db (pre @ s)"
  by (induction pre) (auto dest: has_match_here)

lemma has_match_sound: "has_match db s \<Longrightarrow> contains_image_markup db s"
proof (induction s)
  case Nil then show ?case by simp
next
  case (Cons c cs)
  show ?case
  proof (cases "match_here db (c # cs)")
    case (Some r)
    obtain alt w f rest where r: "r = (alt, w, f, rest)" by (cases r) auto
    from match_here_Some[OF Some[unfolded r]]
    have "c # cs = [] @ image_markup alt w f @ rest" "is_image_markup db (image_markup alt w f)"
      unfolding is_image_markup_def by auto
    then show ?thesis unfolding contains_image_markup_def by blast
  next
    case None
    with Cons.prems have "has_match db cs" by simp
    from Cons.IH[OF this] obtain pre m post where "cs = pre @ m @ post" "is_image_markup db m"
      unfolding contains_image_markup_def by blast
    then have "c # cs = (c # pre) @ m @ post" by simp
    with \<open>is_image_markup db m\<close> show ?thesis unfolding contains_image_markup_def by blast
  qed
qed

lemma has_match_iff: "has_match db s \<longleftrightarrow> contains_image_markup db s"
proof
  assume "has_match db s" then show "contains_image_markup db s" by (rule has_match_sound)
next
  assume "contains_image_markup db s"
  then obtain pre alt w f post where s: "s = pre @ image_markup alt w f @ post"
    and ok: "10 \<notin> set alt" "w \<noteq> []" "list_all (isdecimal db) w" "f \<noteq> []" "list_all (isdecimal db) f"
    unfolding contains_image_markup_def is_image_markup_def by blast
  from match_here_complete[OF ok] have "has_match db (image_markup alt w f @ post)"
    by (rule has_match_here)
  then show "has_match db s" unfolding s by (rule has_match_append)
qed

lemma re_sub_no_match: "\<not> has_match db s \<Longrightarrow> re_sub db repl s st = (s, st)"
proof (induction s)
  case Nil
  then show ?case by (simp add: re_sub.simps[of db repl "[]"])
next
  case (Cons c cs)
  from Cons.prems have "match_here db (c # cs) = None" "\<not> has_match db cs"
    by (simp_all del: not_None_eq)
  moreover from this Cons.IH have "re_sub db repl cs st = (cs, st)" by simp
  ultimately show ?case by (simp add: re_sub.simps[of db repl "c # cs"])
qed

text \<open>
  Claim C5.  On a body that contains no substring of the inline-image shape
  \<^verbatim>\<open>![alt](/wikis/<digits>/files/<digits>)\<close> the substitution returns the body unchanged and
  calls the downloader not at all (the state is unchanged); \<^verbatim>\<open>_process_inline_images\<close>
  then returns that body, its only effect being the creation of the \<^verbatim>\<open>images\<close> directory
  (whose failure is the only way it can raise).
\<close>

theorem rewrite_identity_without_images:
  assumes "\<not> contains_image_markup (udb E) body"
  shows "re_sub (udb E) (replace_image E) body st = (body, st)
         \<and> process_inline_images E body page_path st
             = (if makedirs_fails E (page_path @ [A ''images''])
                then Inl (OSError (page_path @ [A ''images'']))
                else Inr (body, emit (MakeDirs (page_path @ [A ''images''])) st))"
  using assms by (simp add: process_inline_images_def makedirs_def re_sub_no_match has_match_iff)

lemma segments_Nil [simp]: "segments db [] = []"
  by (simp add: segments.simps[of db "[]"])

lemma segments_match:
  "match_here db s = Some (alt, w, f, rest) \<Longrightarrow> segments db s = Image alt w f # segments db rest"
  by (simp add: segments.simps[of db s])

lemma segments_skip:
  "match_here db (c # cs) = None \<Longrightarrow> segments db (c # cs) = Text c # segments db cs"
  by (simp add: segments.simps[of db "c # cs"])

lemma re_sub_Nil [simp]: "re_sub db repl [] st = ([], st)"
  by (simp add: re_sub.simps[of db repl "[]"])

lemma re_sub_match:
  "match_here db s = Some (alt, w, f, rest) \<Longrightarrow>
   re_sub db repl s st
     = (fst (repl (alt, w, f) st) @ fst (re_sub db repl rest (snd (repl (alt, w, f) st))),
        snd (re_sub db repl rest (snd (repl (alt, w, f) st))))"
  by (simp add: re_sub.simps[of db repl s] case_prod_beta Let_def)

lemma re_sub_skip:
  "match_here db (c # cs) = None \<Longrightarrow>
   re_sub db repl (c # cs) st = (c # fst (re_sub db repl cs st), snd (re_sub db repl cs st))"
  by (simp add: re_sub.simps[of db repl "c # cs"] case_prod_beta Let_def)

lemma segments_concat: "concat (map segment_source (segments db s)) = s"
proof (induction db s rule: segments.induct)
  case (1 db s)
  show ?case
  proof (cases "match_here db s")
    case None
    show ?thesis
    proof (cases s)
      case Nil
      then show ?thesis by simp
    next
      case (Cons c cs)
      with None "1.IH"(1)[OF None Cons] show ?thesis by (simp add: segments_skip)
    qed
  next
    case (Some r)
    obtain alt w f rest where r: "r = (alt, w, f, rest)" by (cases r) auto
    from Some r have m: "match_here db s = Some (alt, w, f, rest)" by simp
    from "1.IH"(2)[OF m refl refl refl] have ih: "concat (map segment_source (segments db rest)) = rest" .
    from match_here_Some[OF m] have s: "s = image_markup alt w f @ rest" by simp
    have "concat (map segment_source (segments db s)) = image_markup alt w f @ rest"
      unfolding segments_match[OF m] using ih by simp
    then show ?thesis using s by simp
  qed
qed

lemma run_segments_Image:
  "run_segments E (Image alt w f # segs) st
     = ((Image alt w f, Some (image_outcome E (alt, w, f) st), fst (replace_image E (alt, w, f) st))
          # fst (run_segments E segs (snd (replace_image E (alt, w, f) st))),
        snd (run_segments E segs (snd (replace_image E (alt, w, f) st))))"
  by (simp add: case_prod_beta Let_def)

lemma run_segments_Text:
  "run_segments E (Text c # segs) st
     = ((Text c, None, [c]) # fst (run_segments E segs st), snd (run_segments E segs st))"
  by (simp add: case_prod_beta Let_def)

lemma run_segments_fst: "map fst (fst (run_segments E segs st)) = segs"
proof (induction segs arbitrary: st)
  case Nil then show ?case by simp
next
  case (Cons seg segs)
  then show ?case by (cases seg) (simp_all only: run_segments_Text run_segments_Image fst_conv list.map)
qed

lemma re_sub_run_segments:
  "re_sub db (replace_image E) s st
     = (concat (map (\<lambda>(seg, oc, r). r) (fst (run_segments E (segments db s) st))),
        snd (run_segments E (segments db s) st))"
proof (induction db s arbitrary: st rule: segments.induct)
  case (1 db s)
  show ?case
  proof (cases "match_here db s")
    case None
    show ?thesis
    proof (cases s)
      case Nil
      then show ?thesis by simp
    next
      case (Cons c cs)
      from None Cons have n: "match_here db (c # cs) = None" by simp
      show ?thesis unfolding Cons re_sub_skip[OF n] segments_skip[OF n] run_segments_Text
        using "1.IH"(1)[OF None Cons, of st] by simp
    qed
  next
    case (Some r)
    obtain alt w f rest where r: "r = (alt, w, f, rest)" by (cases r) auto
    from Some r have m: "match_here db s = Some (alt, w, f, rest)" by simp
    show ?thesis unfolding re_sub_match[OF m] segments_match[OF m] run_segments_Image
      using "1.IH"(2)[OF m refl refl refl, of "snd (replace_image E (alt, w, f) st)"] by simp
  qed
qed

lemma replace_image_outcome:
  "fst (replace_image E (alt, w, f) st) =
     (case image_outcome E (alt, w, f) st of
        Fetched \<Rightarrow> A ''!['' @ alt @ A ''](images/''
                     @ inline_filename E alt f (now E (clock_reads st)) @ A '')''
      | NoFile \<Rightarrow> A ''!['' @ alt @ A ''] ('' @ download_failed @ A '' - Wiki ID: ''
                    @ w @ A '', File ID: '' @ f @ A '')''
      | Raised \<Rightarrow> A ''!['' @ alt @ A ''] ('' @ processing_error @ A '' - Wiki ID: ''
                    @ w @ A '', File ID: '' @ f @ A '')'')"
  by (simp add: replace_image_def image_outcome_def read_clock_def attempt_download_def Let_def
           split: dl_outcome.splits)

lemma replace_image_state:
  "snd (replace_image E (alt, w, f) st)
     = emit (Download f (inline_filename E alt f (now E (clock_reads st))) True)
         (st\<lparr>clock_reads := clock_reads st + 1, download_calls := download_calls st + 1\<rparr>)"
  by (simp add: replace_image_def read_clock_def attempt_download_def Let_def emit_def)

lemma run_segments_entries:
  "(seg, oc, r) \<in> set (fst (run_segments E segs st)) \<Longrightarrow>
     (case seg of
        Text c \<Rightarrow> oc = None \<and> r = [c]
      | Image alt w f \<Rightarrow>
          (\<exists>st'. oc = Some (image_outcome E (alt, w, f) st') \<and> r = fst (replace_image E (alt, w, f) st')))"
proof (induction segs arbitrary: st)
  case Nil then show ?case by simp
next
  case (Cons sg segs)
  show ?case
  proof (cases sg)
    case (Text c)
    with Cons.prems have "(seg, oc, r) = (Text c, None, [c]) \<or> (seg, oc, r) \<in> set (fst (run_segments E segs st))"
      by (simp only: run_segments_Text fst_conv set_ConsD)
    then show ?thesis using Cons.IH[of st] by auto
  next
    case (Image alt w f)
    with Cons.prems have "(seg, oc, r) = (Image alt w f, Some (image_outcome E (alt, w, f) st), fst (replace_image E (alt, w, f) st))
       \<or> (seg, oc, r) \<in> set (fst (run_segments E segs (snd (replace_image E (alt, w, f) st))))"
      by (simp only: run_segments_Image fst_conv set_ConsD)
    then show ?thesis using Cons.IH[of "snd (replace_image E (alt, w, f) st)"] by auto
  qed
qed

lemma run_segments_failed:
  assumes "(Image alt w f, oc, r) \<in> set (fst (run_segments E segs st))"
  shows "(oc = Some NoFile \<longrightarrow> r = A ''!['' @ alt @ A ''] ('' @ download_failed @ A '' - Wiki ID: ''
                    @ w @ A '', File ID: '' @ f @ A '')'')
       \<and> (oc = Some Raised \<longrightarrow> r = A ''!['' @ alt @ A ''] ('' @ processing_error @ A '' - Wiki ID: ''
                    @ w @ A '', File ID: '' @ f @ A '')'')"
proof -
  from run_segments_entries[OF assms] obtain st' where
    "oc = Some (image_outcome E (alt, w, f) st')" "r = fst (replace_image E (alt, w, f) st')"
    by auto
  then show ?thesis by (auto simp: replace_image_outcome)
qed

text \<open>
  Claim C6.  The scan of the rewriter cuts the body into its inline-image matches and the
  characters between them (\<open>segments\<close>, whose sources concatenate to the body), and the
  output is the concatenation of one piece per segment, in order.  The piece of a character
  outside the matches is that character.  The piece of a match for which the downloader
  found no file is the marker \<^verbatim>\<open>![alt] (<download failed> - Wiki ID: W, File ID: F)\<close>, and
  for a match during whose download an exception was raised it is the marker
  \<^verbatim>\<open>![alt] (<processing error> - Wiki ID: W, File ID: F)\<close>, with the alt text, container id
  and file id of that match.  Every segment gets its piece, so the scan goes on after a
  failure; the function has no error result of its own once the \<^verbatim>\<open>images\<close> directory
  exists.
\<close>

theorem failed_image_degrades:
  "concat (map segment_source (segments (udb E) body)) = body
   \<and> map fst (fst (run_segments E (segments (udb E) body) st)) = segments (udb E) body
   \<and> re_sub (udb E) (replace_image E) body st
       = (concat (map (\<lambda>(seg, oc, r). r) (fst (run_segments E (segments (udb E) body) st))),
          snd (run_segments E (segments (udb E) body) st))
   \<and> (\<forall>(seg, oc, r) \<in> set (fst (run_segments E (segments (udb E) body) st)).
        case seg of
          Text c \<Rightarrow> r = [c]
        | Image alt w f \<Rightarrow>
            (oc = Some NoFile \<longrightarrow>
               r = A ''!['' @ alt @ A ''] ('' @ download_failed @ A '' - Wiki ID: ''
                     @ w @ A '', File ID: '' @ f @ A '')'')
          \<and> (oc = Some Raised \<longrightarrow>
               r = A ''!['' @ alt @ A ''] ('' @ processing_error @ A '' - Wiki ID: ''
                     @ w @ A '', File ID: '' @ f @ A '')''))
   \<and> (\<not> makedirs_fails E (page_path @ [A ''images'']) \<longrightarrow>
        process_inline_images E body page_path st
          = Inr (re_sub (udb E) (replace_image E) body (emit (MakeDirs (page_path @ [A ''images''])) st)))"
proof -
  have 4: "\<forall>(seg, oc, r) \<in> set (fst (run_segments E (segments (udb E) body) st)).
        case seg of
          Text c \<Rightarrow> r = [c]
        | Image alt w f \<Rightarrow>
            (oc = Some NoFile \<longrightarrow>
               r = A ''!['' @ alt @ A ''] ('' @ download_failed @ A '' - Wiki ID: ''
                     @ w @ A '', File ID: '' @ f @ A '')'')
          \<and> (oc = Some Raised \<longrightarrow>
               r = A ''!['' @ alt @ A ''] ('' @ processing_error @ A '' - Wiki ID: ''
                     @ w @ A '', File ID: '' @ f @ A '')'')"
  proof (clarify)
    fix seg oc r assume a: "(seg, oc, r) \<in> set (fst (run_segments E (segments (udb E) body) st))"
    show "case seg of
          Text c \<Rightarrow> r = [c]
        | Image alt w f \<Rightarrow>
            (oc = Some NoFile \<longrightarrow>
               r = A ''!['' @ alt @ A ''] ('' @ download_failed @ A '' - Wiki ID: ''
                     @ w @ A '', File ID: '' @ f @ A '')'')
          \<and> (oc = Some Raised \<longrightarrow>
               r = A ''!['' @ alt @ A ''] ('' @ processing_error @ A '' - Wiki ID: ''
                     @ w @ A '', File ID: '' @ f @ A '')'')"
    proof (cases seg)
      case (Text c)
      with run_segments_entries[OF a] show ?thesis by simp
    next
      case (Image alt w f)
      with run_segments_failed[of alt w f oc r E "segments (udb E) body" st] a show ?thesis by simp
    qed
  qed
  have 5: "\<not> makedirs_fails E (page_path @ [A ''images'']) \<longrightarrow>
        process_inline_images E body page_path st
          = Inr (re_sub (udb E) (replace_image E) body (emit (MakeDirs (page_path @ [A ''images''])) st))"
    by (simp add: process_inline_images_def makedirs_def)
  show ?thesis
    using segments_concat[of "udb E" body] run_segments_fst[of E "segments (udb E) body" st]
      re_sub_run_segments[of "udb E" E body st] 4 5 by blast
qed

lemma demo_udb: "udb demo_env = ascii_db" by (simp add: demo_env_def)

lemma dropWhile_all: "list_all P s \<Longrightarrow> dropWhile P s = []"
  by (induction s) auto

lemma strip_all_space: "list_all (isspace db) s \<Longrightarrow> strip db s = []"
  by (simp add: strip_def dropWhile_all)

lemma rfind_absent: "c \<notin> set s \<Longrightarrow> rfind c s = - 1"
  by (induction s) (auto simp: Let_def)

lemma rfind_bound: "- 1 \<le> rfind c s"
  by (induction s) (auto simp: Let_def)

lemma rfind_last: "c \<notin> set suf \<Longrightarrow> rfind c (pre @ c # suf) = int (length pre)"
proof (induction pre)
  case Nil
  then show ?case by (simp add: rfind_absent Let_def)
next
  case (Cons a pre)
  then show ?case by (simp add: Let_def)
qed

lemma decimal_not_punct: "isdecimal db c \<Longrightarrow> c \<noteq> 46 \<and> c \<noteq> 47 \<and> c \<noteq> 92"
  by (auto simp: isdecimal_def split: if_splits)

lemma decimal_alnum: "isdecimal db c \<Longrightarrow> isalnum db c"
  by (simp add: isalnum_def)

lemma splitext_image:
  assumes "list_all (isdecimal db) f"
  shows "splitext pf (A ''image_'' @ f @ A ''.png'') = (A ''image_'' @ f, A ''.png'')"
proof -
  let ?p = "A ''image_'' @ f @ A ''.png''"
  have f: "46 \<notin> set f" "47 \<notin> set f" "92 \<notin> set f"
    using assms decimal_not_punct[of db] by (auto simp: list_all_iff)
  have p: "?p = (A ''image_'' @ f) @ 46 # A ''png''" by (simp add: A_def)
  have n47: "47 \<notin> set ?p" and n92: "92 \<notin> set ?p" using f by (simp_all add: A_def)
  have nosep: "rfind 47 ?p = - 1" "rfind 92 ?p = - 1"
    using rfind_absent[OF n47] rfind_absent[OF n92] by blast+
  have sep: "foldl max (- 1) (map (\<lambda>sep. rfind sep ?p) (path_seps pf)) = - 1"
    by (cases pf) (simp_all add: nosep)
  have dot: "rfind 46 ?p = int (length (A ''image_'' @ f))"
    unfolding p by (rule rfind_last) (simp add: A_def)
  let ?n = "length (A ''image_'' @ f)"
  have pos: "0 < ?n" by (simp add: A_def)
  have "?p ! 0 \<noteq> 46" by (simp add: A_def)
  with pos have ex: "list_ex (\<lambda>j. ?p ! j \<noteq> 46) [nat (- 1 + 1)..<nat (int ?n)]"
    unfolding list_ex_iff by (intro bexI[of _ 0]) (simp_all add: A_def)
  have tk: "take ?n ?p = A ''image_'' @ f" "drop ?n ?p = A ''.png''"
    unfolding p by (simp_all add: A_def)
  have gt: "int ?n > - 1" by simp
  show ?thesis
    unfolding splitext_def Let_def sep dot using ex tk gt by (simp only: if_True nat_int simp_thms)
qed

lemma sanitize_image:
  assumes "list_all (isdecimal db) f"
  shows "sanitize_base db (A ''image_'' @ f) = A ''image_'' @ f"
proof -
  have "sanitize_base db f = f"
    unfolding sanitize_base_def using assms decimal_alnum[of db]
    by (intro map_idI) (auto simp: list_all_iff)
  moreover have "sanitize_base db (A ''image_'') = A ''image_''"
    by (simp add: sanitize_base_def A_def isalnum_def isalpha_def)
  ultimately show ?thesis by (simp add: sanitize_base_def)
qed

lemma inline_filename_blank:
  assumes "list_all (isspace (udb E)) alt" "list_all (isdecimal (udb E)) f"
  shows "inline_filename E alt f ts = A ''image_'' @ f @ A ''_'' @ ts @ A ''.png''"
  using assms
  by (simp add: inline_filename_def unique_filename_def strip_all_space splitext_image sanitize_image)

text \<open>
  Claim C10.  For a match of the inline-image pattern whose alt text is empty or consists of
  whitespace only, the local file name is \<^verbatim>\<open>image_<fileId>\<close>, an underscore, the timestamp,
  and the extension \<^verbatim>\<open>.png\<close>.  Nothing about the remote file enters the name.  It is the
  name the downloader is asked for and, when the download succeeds, the one the rewritten
  image reference points to under \<^verbatim>\<open>images/\<close>.
\<close>

theorem blank_alt_filename:
  assumes "match_here (udb E) s = Some (alt, w, f, rest)"
      and "list_all (isspace (udb E)) alt"
  shows "inline_filename E alt f ts = A ''image_'' @ f @ A ''_'' @ ts @ A ''.png''
         \<and> trace (snd (replace_image E (alt, w, f) st))
             = trace st @ [Download f (A ''image_'' @ f @ A ''_'' @ now E (clock_reads st) @ A ''.png'') True]
         \<and> (image_outcome E (alt, w, f) st = Fetched \<longrightarrow>
              fst (replace_image E (alt, w, f) st)
                = A ''!['' @ alt @ A ''](images/'' @ A ''image_'' @ f @ A ''_''
                    @ now E (clock_reads st) @ A ''.png'' @ A '')'')"
proof -
  from match_here_Some[OF assms(1)] have f: "list_all (isdecimal (udb E)) f" by simp
  note n = inline_filename_blank[OF assms(2) f]
  show ?thesis
    by (simp add: n replace_image_state replace_image_outcome emit_def)
qed

lemma m10: "match_here ascii_db (A ''![ ](/wikis/3/files/44) x'') = Some (A '' '', A ''3'', A ''44'', A '' x'')"
  by (simp add: A_def match_here_def match_tail_def isdecimal_def ascii_db_def)

theorem blank_alt_filename_witness:
  "match_here (udb demo_env) (A ''![ ](/wikis/3/files/44) x'') = Some (A '' '', A ''3'', A ''44'', A '' x'')
   \<and> list_all (isspace (udb demo_env)) (A '' '')
   \<and> image_outcome demo_env (A '' '', A ''3'', A ''44'') \<lparr>page_counter = PageCounter 2, clock_reads = 7, download_calls = 2, trace = []\<rparr> = Fetched
   \<and> replace_image demo_env (A '' '', A ''3'', A ''44'') \<lparr>page_counter = PageCounter 2, clock_reads = 7, download_calls = 2, trace = []\<rparr>
      = (A ''![ ](images/image_44_T7.png)'',
         \<lparr>page_counter = PageCounter 2, clock_reads = 8, download_calls = 3,
          trace = [Download (A ''44'') (A ''image_44_T7.png'') True]\<rparr>)"
proof -
  have h1: "match_here (udb demo_env) (A ''![ ](/wikis/3/files/44) x'') = Some (A '' '', A ''3'', A ''44'', A '' x'')"
    using m10 by (simp add: demo_udb)
  have h2: "list_all (isspace (udb demo_env)) (A '' '')"
    by (simp add: demo_udb A_def isspace_def)
  let ?st = "\<lparr>page_counter = PageCounter 2, clock_reads = 7, download_calls = 2, trace = []\<rparr>"
  have h3: "image_outcome demo_env (A '' '', A ''3'', A ''44'') ?st = Fetched"
    by (simp add: image_outcome_def demo_env_def)
  have ts: "now demo_env 7 = A ''T7''" by (simp add: demo_env_def A_def dec_nat.simps)
  from blank_alt_filename[OF h1 h2, of "now demo_env 7" ?st] h3
  have "trace (snd (replace_image demo_env (A '' '', A ''3'', A ''44'') ?st)) = [Download (A ''44'') (A ''image_44_T7.png'') True]"
    and "fst (replace_image demo_env (A '' '', A ''3'', A ''44'') ?st) = A ''![ ](images/image_44_T7.png)''"
    by (simp_all add: ts A_def)
  then have "replace_image demo_env (A '' '', A ''3'', A ''44'') ?st = (A ''![ ](images/image_44_T7.png)'',
         \<lparr>page_counter = PageCounter 2, clock_reads = 8, download_calls = 3,
          trace = [Download (A ''44'') (A ''image_44_T7.png'') True]\<rparr>)"
    by (simp add: prod_eq_iff replace_image_state emit_def)
  with h1 h2 h3 show ?thesis by blast
qed

section \<open>Properties of the Page Materializer\<close>

lemma materialized_append: "materialized (xs @ ys) = materialized xs @ materialized ys"
  by (induction xs rule: materialized.induct) simp_all

lemma listed_append: "listed (xs @ ys) = listed xs @ listed ys"
  by (induction xs rule: listed.induct) simp_all

lemma fetched_append: "fetched (xs @ ys) = fetched xs @ fetched ys"
  by (induction xs rule: fetched.induct) simp_all

lemma reported_append: "reported (xs @ ys) = reported xs @ reported ys"
  by (induction xs rule: reported.induct) simp_all

lemmas projections_append = materialized_append listed_append fetched_append reported_append

lemma downloads_silent:
  "\<forall>e \<in> set es. \<exists>fid name inl. e = Download fid name inl \<Longrightarrow>
   materialized es = [] \<and> listed es = [] \<and> fetched es = [] \<and> reported es = []"
  by (induction es) auto

lemma run_segments_trace:
  "\<exists>es. trace (snd (run_segments E segs st)) = trace st @ es
        \<and> (\<forall>e \<in> set es. \<exists>fid name. e = Download fid name True)
        \<and> page_counter (snd (run_segments E segs st)) = page_counter st"
proof (induction segs arbitrary: st)
  case Nil then show ?case by simp
next
  case (Cons sg segs)
  show ?case
  proof (cases sg)
    case (Text c)
    with Cons.IH[of st] show ?thesis by (simp only: run_segments_Text snd_conv)
  next
    case (Image alt w f)
    let ?st1 = "snd (replace_image E (alt, w, f) st)"
    from Cons.IH[of ?st1] obtain es where es: "trace (snd (run_segments E segs ?st1)) = trace ?st1 @ es"
      "\<forall>e \<in> set es. \<exists>fid name. e = Download fid name True"
      "page_counter (snd (run_segments E segs ?st1)) = page_counter ?st1" by blast
    have t1: "trace ?st1 = trace st @ [Download f (inline_filename E alt f (now E (clock_reads st))) True]"
      and p1: "page_counter ?st1 = page_counter st"
      by (simp_all add: replace_image_state emit_def)
    show ?thesis unfolding Image run_segments_Image snd_conv
      using es t1 p1
      by (intro exI[of _ "Download f (inline_filename E alt f (now E (clock_reads st))) True # es"]) simp
  qed
qed

lemma re_sub_trace:
  "\<exists>es. trace (snd (re_sub db (replace_image E) s st)) = trace st @ es
        \<and> (\<forall>e \<in> set es. \<exists>fid name. e = Download fid name True)
        \<and> page_counter (snd (re_sub db (replace_image E) s st)) = page_counter st"
  unfolding re_sub_run_segments snd_conv by (rule run_segments_trace)

lemma attachment_loop_Cons:
  "attachment_loop E (att # rest) st =
     (let st2 = emit (Download (att_id att) (unique_filename E (att_name att) (now E (clock_reads st))) False)
                  (st\<lparr>clock_reads := clock_reads st + 1, download_calls := download_calls st + 1\<rparr>);
          r = attachment_loop E rest st2
      in (hd (fst (attachment_loop E (att # rest) st)) # fst r, snd r))"
  by (simp add: Let_def case_prod_beta read_clock_def attempt_download_def emit_def)

lemma attachment_loop_trace:
  "\<exists>es. trace (snd (attachment_loop E fs st)) = trace st @ es
        \<and> (\<forall>e \<in> set es. \<exists>fid name. e = Download fid name False)
        \<and> length es = length fs
        \<and> page_counter (snd (attachment_loop E fs st)) = page_counter st
        \<and> length (fst (attachment_loop E fs st)) = length fs"
proof (induction fs arbitrary: st)
  case Nil then show ?case by simp
next
  case (Cons att rest)
  let ?e = "Download (att_id att) (unique_filename E (att_name att) (now E (clock_reads st))) False"
  let ?st2 = "emit ?e (st\<lparr>clock_reads := clock_reads st + 1, download_calls := download_calls st + 1\<rparr>)"
  from Cons.IH[of ?st2] obtain es where es: "trace (snd (attachment_loop E rest ?st2)) = trace ?st2 @ es"
    "\<forall>e \<in> set es. \<exists>fid name. e = Download fid name False" "length es = length rest"
    "page_counter (snd (attachment_loop E rest ?st2)) = page_counter ?st2"
    "length (fst (attachment_loop E rest ?st2)) = length rest" by blast
  have s: "snd (attachment_loop E (att # rest) st) = snd (attachment_loop E rest ?st2)"
    and f: "length (fst (attachment_loop E (att # rest) st)) = Suc (length (fst (attachment_loop E rest ?st2)))"
    by (subst attachment_loop_Cons, simp add: Let_def)+
  show ?case unfolding s f using es
    by (intro exI[of _ "?e # es"]) (simp add: emit_def)
qed

lemma save_page_unfold:
  "save_page E pg c path st =
     (if makedirs_fails E (path @ [A ''images'']) then Inl (OSError (path @ [A ''images'']))
      else
        let r = re_sub (udb E) (replace_image E) (A ''# '' @ subject pg @ [10, 10] @ body_content c)
                  (emit (MakeDirs (path @ [A ''images''])) st)
        in if files c \<noteq> [] \<and> makedirs_fails E (path @ [A ''attachments''])
           then Inl (OSError (path @ [A ''attachments'']))
           else
             let l = (if files c = [] then ([], snd r)
                      else attachment_loop E (files c) (emit (MakeDirs (path @ [A ''attachments''])) (snd r)));
                 content2 = (if fst l \<noteq> []
                             then fst r @ [10, 10] @ A ''## '' @ attachments_heading @ [10] @ concat (fst l)
                             else fst r);
                 md = \<lparr>md_id = page_id pg, md_subject = subject pg, md_mimeType = mimeType c,
                       md_createdAt = createdAt c, md_parentPageId = parentPageId pg,
                       md_attachments = files c\<rparr>
             in if write_fails E (path @ [A ''metadata.json''])
                then Inl (OSError (path @ [A ''metadata.json'']))
                else if write_fails E (path @ [A ''content.md''])
                then Inl (OSError (path @ [A ''content.md'']))
                else Inr (emit (WriteContent (path @ [A ''content.md'']) content2)
                           (emit (WriteMetadata (path @ [A ''metadata.json'']) md) (snd l))))"
  by (simp add: save_page_def process_inline_images_def process_attachments_def makedirs_def
        write_metadata_def write_content_def Let_def case_prod_beta)

lemma save_page_Inr:
  assumes "save_page E pg c path st = Inr st'"
  shows "\<exists>es1 es2 links.
     trace st' = trace st @ [MakeDirs (path @ [A ''images''])] @ es1
                  @ (if files c = [] then [] else [MakeDirs (path @ [A ''attachments''])]) @ es2
                  @ [WriteMetadata (path @ [A ''metadata.json''])
                       \<lparr>md_id = page_id pg, md_subject = subject pg, md_mimeType = mimeType c,
                        md_createdAt = createdAt c, md_parentPageId = parentPageId pg,
                        md_attachments = files c\<rparr>,
                     WriteContent (path @ [A ''content.md''])
                       (fst (re_sub (udb E) (replace_image E)
                               (A ''# '' @ subject pg @ [10, 10] @ body_content c)
                               (emit (MakeDirs (path @ [A ''images''])) st))
                        @ (if files c = [] then []
                           else [10, 10] @ A ''## '' @ attachments_heading @ [10] @ concat links))]
     \<and> (\<forall>e \<in> set es1. \<exists>fid name. e = Download fid name True)
     \<and> (\<forall>e \<in> set es2. \<exists>fid name. e = Download fid name False)
     \<and> length es2 = length (files c) \<and> length links = length (files c)
     \<and> page_counter st' = page_counter st"
proof -
  let ?st1 = "emit (MakeDirs (path @ [A ''images''])) st"
  let ?r = "re_sub (udb E) (replace_image E) (A ''# '' @ subject pg @ [10, 10] @ body_content c) ?st1"
  let ?md = "\<lparr>md_id = page_id pg, md_subject = subject pg, md_mimeType = mimeType c,
                        md_createdAt = createdAt c, md_parentPageId = parentPageId pg,
                        md_attachments = files c\<rparr>"
  from re_sub_trace[of "udb E" E _ ?st1] obtain es1 where es1:
    "trace (snd ?r) = trace ?st1 @ es1" "\<forall>e \<in> set es1. \<exists>fid name. e = Download fid name True"
    "page_counter (snd ?r) = page_counter ?st1" by blast
  show ?thesis
  proof (cases "files c = []")
    case True
    with assms have "st' = emit (WriteContent (path @ [A ''content.md'']) (fst ?r))
                           (emit (WriteMetadata (path @ [A ''metadata.json'']) ?md) (snd ?r))"
      by (simp add: save_page_unfold Let_def split: if_splits)
    then show ?thesis using True es1
      by (intro exI[of _ es1] exI[of _ "[]"]) (simp add: emit_def)
  next
    case False
    let ?st2 = "emit (MakeDirs (path @ [A ''attachments''])) (snd ?r)"
    let ?l = "attachment_loop E (files c) ?st2"
    from attachment_loop_trace[of E "files c" ?st2] obtain es2 where es2:
      "trace (snd ?l) = trace ?st2 @ es2" "\<forall>e \<in> set es2. \<exists>fid name. e = Download fid name False"
      "length es2 = length (files c)" "page_counter (snd ?l) = page_counter ?st2"
      "length (fst ?l) = length (files c)" by blast
    from es2(5) False have ne: "fst ?l \<noteq> []" by auto
    from assms False ne have "st' = emit (WriteContent (path @ [A ''content.md''])
                             (fst ?r @ [10, 10] @ A ''## '' @ attachments_heading @ [10] @ concat (fst ?l)))
                           (emit (WriteMetadata (path @ [A ''metadata.json'']) ?md) (snd ?l))"
      by (simp add: save_page_unfold Let_def split: if_splits)
    then show ?thesis using False es1 es2
      by (intro exI[of _ es1] exI[of _ es2] exI[of _ "fst ?l"]) (simp add: emit_def)
  qed
qed

lemma save_page_ok:
  assumes "\<not> makedirs_fails E (path @ [A ''images''])"
      and "files c = [] \<or> \<not> makedirs_fails E (path @ [A ''attachments''])"
      and "\<not> write_fails E (path @ [A ''metadata.json''])"
      and "\<not> write_fails E (path @ [A ''content.md''])"
  shows "\<exists>st'. save_page E pg c path st = Inr st'"
  using assms by (auto simp: save_page_unfold Let_def)

lemma save_page_summary:
  assumes "save_page E pg c path st = Inr st'"
  shows "page_counter st' = page_counter st
       \<and> materialized (trace st') = materialized (trace st) @ [path]
       \<and> listed (trace st') = listed (trace st)
       \<and> fetched (trace st') = fetched (trace st)
       \<and> reported (trace st') = reported (trace st)"
proof -
  from save_page_Inr[OF assms] obtain es1 es2 links md content where
    t: "trace st' = trace st @ [MakeDirs (path @ [A ''images''])] @ es1
                  @ (if files c = [] then [] else [MakeDirs (path @ [A ''attachments''])]) @ es2
                  @ [WriteMetadata (path @ [A ''metadata.json'']) md,
                     WriteContent (path @ [A ''content.md'']) content]"
    and d1: "\<forall>e \<in> set es1. \<exists>fid name. e = Download fid name True"
    and d2: "\<forall>e \<in> set es2. \<exists>fid name. e = Download fid name False"
    and pc: "page_counter st' = page_counter st"
    by blast
  from d1 have s1: "materialized es1 = [] \<and> listed es1 = [] \<and> fetched es1 = [] \<and> reported es1 = []"
    by (intro downloads_silent) blast
  from d2 have s2: "materialized es2 = [] \<and> listed es2 = [] \<and> fetched es2 = [] \<and> reported es2 = []"
    by (intro downloads_silent) blast
  show ?thesis unfolding t using s1 s2 pc by (simp add: projections_append)
qed

lemma save_page_no_files_dir:
  assumes "files c = []" "save_page E pg c path st = Inr st'"
  shows "dir_exists st' (path @ [A ''attachments'']) \<longleftrightarrow> dir_exists st (path @ [A ''attachments''])"
proof -
  from save_page_Inr[OF assms(2)] obtain es1 es2 md content where
    t: "trace st' = trace st @ [MakeDirs (path @ [A ''images''])] @ es1
                  @ (if files c = [] then [] else [MakeDirs (path @ [A ''attachments''])]) @ es2
                  @ [WriteMetadata (path @ [A ''metadata.json'']) md,
                     WriteContent (path @ [A ''content.md'']) content]"
    and d1: "\<forall>e \<in> set es1. \<exists>fid name. e = Download fid name True"
    and d2: "\<forall>e \<in> set es2. \<exists>fid name. e = Download fid name False"
    by blast
  have "A ''attachments'' \<noteq> A ''images''" by (simp add: A_def)
  then show ?thesis unfolding dir_exists_def t using d1 d2 assms(1) by auto
qed

text \<open>
  Claim C8, as the code has it.  When the page has at least one attachment, a successful
  \<^verbatim>\<open>_save_page\<close> creates \<^verbatim>\<open>attachments\<close> under the page directory before the first
  attachment download, then attempts one download per attachment, and the directory exists
  afterwards.  When the attachment list is empty, \<^verbatim>\<open>_process_attachments\<close> returns at once and
  the directory is not created: it exists afterwards only if it existed before.
\<close>

theorem attachments_dir_created_before_downloads:
  assumes "save_page E pg c path st = Inr st'"
  shows "(files c \<noteq> [] \<longrightarrow>
           (\<exists>before downloads md content.
               trace st' = trace st @ before @ [MakeDirs (path @ [A ''attachments''])] @ downloads
                             @ [WriteMetadata (path @ [A ''metadata.json'']) md,
                                WriteContent (path @ [A ''content.md'']) content]
             \<and> (\<forall>fid name. Download fid name False \<notin> set before)
             \<and> (\<forall>e \<in> set downloads. \<exists>fid name. e = Download fid name False)
             \<and> length downloads = length (files c))
           \<and> dir_exists st' (path @ [A ''attachments'']))
       \<and> (files c = [] \<longrightarrow>
            (dir_exists st' (path @ [A ''attachments'']) \<longleftrightarrow> dir_exists st (path @ [A ''attachments''])))"
proof (intro conjI impI)
  assume ne: "files c \<noteq> []"
  from save_page_Inr[OF assms] obtain es1 es2 md content where
    t0: "trace st' = trace st @ [MakeDirs (path @ [A ''images''])] @ es1
                  @ (if files c = [] then [] else [MakeDirs (path @ [A ''attachments''])]) @ es2
                  @ [WriteMetadata (path @ [A ''metadata.json'']) md,
                     WriteContent (path @ [A ''content.md'']) content]"
    and d1: "\<forall>e \<in> set es1. \<exists>fid name. e = Download fid name True"
    and d2: "\<forall>e \<in> set es2. \<exists>fid name. e = Download fid name False"
    and l: "length es2 = length (files c)"
    by blast
  from t0 ne have t: "trace st' = trace st @ [MakeDirs (path @ [A ''images''])] @ es1
                  @ [MakeDirs (path @ [A ''attachments''])] @ es2
                  @ [WriteMetadata (path @ [A ''metadata.json'']) md,
                     WriteContent (path @ [A ''content.md'']) content]"
    by simp
  have b: "\<forall>fid name. Download fid name False \<notin> set ([MakeDirs (path @ [A ''images''])] @ es1)"
    using d1 by auto
  show "\<exists>before downloads md content.
               trace st' = trace st @ before @ [MakeDirs (path @ [A ''attachments''])] @ downloads
                             @ [WriteMetadata (path @ [A ''metadata.json'']) md,
                                WriteContent (path @ [A ''content.md'']) content]
             \<and> (\<forall>fid name. Download fid name False \<notin> set before)
             \<and> (\<forall>e \<in> set downloads. \<exists>fid name. e = Download fid name False)
             \<and> length downloads = length (files c)"
    using t b d2 l
    by (intro exI[of _ "[MakeDirs (path @ [A ''images''])] @ es1"] exI[of _ es2] exI[of _ md] exI[of _ content])
       simp
  show "dir_exists st' (path @ [A ''attachments''])"
    unfolding dir_exists_def t by simp
next
  assume "files c = []"
  then show "dir_exists st' (path @ [A ''attachments'']) \<longleftrightarrow> dir_exists st (path @ [A ''attachments''])"
    using assms by (rule save_page_no_files_dir)
qed

lemma demo_no_failures:
  "\<not> makedirs_fails demo_env p" "\<not> write_fails demo_env p"
  by (simp_all add: demo_env_def)

text \<open>
  A page without attachments, saved into a fresh directory: afterwards there is no
  \<^verbatim>\<open>attachments\<close> subdirectory.
\<close>

theorem attachments_dir_missing_counterexample:
  "(case save_page demo_env (demo_page ''A'' ''Home'' None)
           \<lparr>body_content = A ''text'', mimeType = A ''text/x-markdown'',
            createdAt = A ''2024-01-01'', files = []\<rparr>
           [A ''out''] (init_state 2) of
      Inl e \<Rightarrow> False
    | Inr st' \<Rightarrow> \<not> dir_exists st' [A ''out'', A ''attachments''])"
proof -
  let ?c = "\<lparr>body_content = A ''text'', mimeType = A ''text/x-markdown'',
            createdAt = A ''2024-01-01'', files = []\<rparr>"
  obtain st' where s: "save_page demo_env (demo_page ''A'' ''Home'' None) ?c [A ''out''] (init_state 2) = Inr st'"
    using save_page_ok[of demo_env "[A ''out'']" ?c] demo_no_failures by blast
  have "\<not> dir_exists (init_state 2) ([A ''out''] @ [A ''attachments''])"
    by (simp add: dir_exists_def init_state_def)
  with save_page_no_files_dir[OF _ s] have "\<not> dir_exists st' [A ''out'', A ''attachments'']" by simp
  with s show ?thesis by simp
qed

theorem attachments_dir_created_before_downloads_witness:
  "(case save_page demo_env (demo_page ''A'' ''Home'' None)
           \<lparr>body_content = A ''text'', mimeType = A ''text/x-markdown'',
            createdAt = A ''2024-01-01'',
            files = [\<lparr>att_name = A ''report.pdf'', att_id = A ''77'', att_size = 1024\<rparr>]\<rparr>
           [A ''out''] (init_state 2) of
      Inl e \<Rightarrow> False
    | Inr st' \<Rightarrow> dir_exists st' [A ''out'', A ''attachments''])"
proof -
  let ?c = "\<lparr>body_content = A ''text'', mimeType = A ''text/x-markdown'',
            createdAt = A ''2024-01-01'',
            files = [\<lparr>att_name = A ''report.pdf'', att_id = A ''77'', att_size = 1024\<rparr>]\<rparr>"
  obtain st' where s: "save_page demo_env (demo_page ''A'' ''Home'' None) ?c [A ''out''] (init_state 2) = Inr st'"
    using save_page_ok[of demo_env "[A ''out'']" ?c] demo_no_failures by blast
  have ne: "files ?c \<noteq> []" by simp
  from attachments_dir_created_before_downloads[OF s] ne
  have "dir_exists st' ([A ''out''] @ [A ''attachments''])" by blast
  with s show ?thesis by simp
qed

lemma markup_no_newline:
  assumes "10 \<notin> set alt" "list_all (isdecimal db) w" "list_all (isdecimal db) f"
  shows "10 \<notin> set (image_markup alt w f)"
proof -
  have "\<not> isdecimal db 10" by (simp add: isdecimal_def)
  with assms(2,3) have "10 \<notin> set w" "10 \<notin> set f" by (auto simp: list_all_iff)
  with assms(1) show ?thesis by (simp add: image_markup_def A_def)
qed

lemma prefix_before_newline:
  assumes "xs @ 10 # r = m @ rest" "10 \<notin> set m"
  shows "\<exists>q. xs = m @ q"
proof -
  from assms(1) consider us where "xs = m @ us" | us where "xs @ us = m" "10 # r = us @ rest"
    by (auto simp: append_eq_append_conv2)
  then show ?thesis
  proof cases
    case 1 then show ?thesis by blast
  next
    case 2
    show ?thesis
    proof (cases us)
      case Nil with 2 show ?thesis by simp
    next
      case (Cons u us')
      with 2 have "u = 10" by simp
      with 2(1) Cons assms(2) show ?thesis by auto
    qed
  qed
qed

lemma match_here_within_line:
  assumes "match_here db (p @ 10 # r) = Some x"
  shows "has_match db p"
proof -
  obtain alt w f rest where x: "x = (alt, w, f, rest)" by (cases x) auto
  note m = match_here_Some[OF assms[unfolded x]]
  from m have nl: "10 \<notin> set (image_markup alt w f)" by (intro markup_no_newline[of alt db]) simp_all
  from m have "p @ 10 # r = image_markup alt w f @ rest" by simp
  from prefix_before_newline[OF this nl] obtain q where q: "p = image_markup alt w f @ q" by blast
  from m have "match_here db (image_markup alt w f @ q) \<noteq> None"
    by (intro match_here_complete) simp_all
  then show ?thesis unfolding q by (rule has_match_here)
qed

lemma re_sub_line_prefix:
  "\<not> has_match db p \<Longrightarrow>
   re_sub db repl (p @ 10 # r) st
     = (p @ 10 # fst (re_sub db repl r st), snd (re_sub db repl r st))"
proof (induction p)
  case Nil
  have "match_here db (10 # r) = None" by (simp add: match_here_def A_def)
  then show ?case by (simp add: re_sub_skip)
next
  case (Cons c p)
  from Cons.prems have np: "\<not> has_match db p" by simp
  have "match_here db ((c # p) @ 10 # r) = None"
  proof (cases "match_here db ((c # p) @ 10 # r)")
    case None then show ?thesis .
  next
    case (Some x)
    from match_here_within_line[OF Some] Cons.prems show ?thesis by simp
  qed
  then have "match_here db (c # p @ 10 # r) = None" by simp
  from re_sub_skip[OF this, of repl st] Cons.IH[OF np] show ?case by simp
qed

lemma has_match_heading: "has_match db (A ''# '' @ title) \<longleftrightarrow> has_match db title"
proof -
  have "\<And>cs. match_here db (35 # cs) = None" "\<And>cs. match_here db (32 # cs) = None"
    by (simp_all add: match_here_def A_def)
  then show ?thesis by (simp add: A_def)
qed

lemma re_sub_heading:
  assumes "\<not> contains_image_markup db title"
  shows "re_sub db repl (A ''# '' @ title @ [10, 10] @ body) st
           = (A ''# '' @ title @ [10, 10] @ fst (re_sub db repl body st), snd (re_sub db repl body st))"
proof -
  from assms have "\<not> has_match db title" by (simp add: has_match_iff)
  then have n: "\<not> has_match db (A ''# '' @ title)" by (simp add: has_match_heading)
  have "re_sub db repl ((A ''# '' @ title) @ 10 # (10 # body)) st
          = ((A ''# '' @ title) @ 10 # fst (re_sub db repl (10 # body) st), snd (re_sub db repl (10 # body) st))"
    using n by (rule re_sub_line_prefix)
  moreover have "re_sub db repl ([] @ 10 # body) st = ([] @ 10 # fst (re_sub db repl body st), snd (re_sub db repl body st))"
    by (rule re_sub_line_prefix) simp
  ultimately show ?thesis by simp
qed

text \<open>
  Claim C9, as the code has it.  For a page whose attachment list is empty, a successful
  \<^verbatim>\<open>_save_page\<close> writes \<^verbatim>\<open>content.md\<close> exactly once, as its last effect, and what it writes
  is the rewriter's output for the title heading line followed by the body, with nothing
  appended: no attachments heading and no link lines.  The rewriter is applied to heading
  and body together, so an inline-image reference in the title is rewritten as well; when
  the title holds no inline-image reference, the heading line passes through literally and
  the content is the heading line followed by the rewritten body.
\<close>

theorem no_attachments_section_when_empty:
  assumes "files c = []" and "save_page E pg c path st = Inr st'"
  shows "(\<exists>es md. trace st' = trace st @ es
                     @ [WriteMetadata (path @ [A ''metadata.json'']) md,
                        WriteContent (path @ [A ''content.md''])
                          (fst (re_sub (udb E) (replace_image E)
                                  (A ''# '' @ subject pg @ [10, 10] @ body_content c)
                                  (emit (MakeDirs (path @ [A ''images''])) st)))]
                \<and> (\<forall>p x. WriteContent p x \<notin> set es))
       \<and> (\<not> contains_image_markup (udb E) (subject pg) \<longrightarrow>
            fst (re_sub (udb E) (replace_image E)
                   (A ''# '' @ subject pg @ [10, 10] @ body_content c)
                   (emit (MakeDirs (path @ [A ''images''])) st))
              = A ''# '' @ subject pg @ [10, 10]
                  @ fst (re_sub (udb E) (replace_image E) (body_content c)
                           (emit (MakeDirs (path @ [A ''images''])) st)))"
proof (intro conjI impI)
  from save_page_Inr[OF assms(2)] obtain es1 es2 links where
    t: "trace st' = trace st @ [MakeDirs (path @ [A ''images''])] @ es1
                  @ (if files c = [] then [] else [MakeDirs (path @ [A ''attachments''])]) @ es2
                  @ [WriteMetadata (path @ [A ''metadata.json''])
                       \<lparr>md_id = page_id pg, md_subject = subject pg, md_mimeType = mimeType c,
                        md_createdAt = createdAt c, md_parentPageId = parentPageId pg,
                        md_attachments = files c\<rparr>,
                     WriteContent (path @ [A ''content.md''])
                       (fst (re_sub (udb E) (replace_image E)
                               (A ''# '' @ subject pg @ [10, 10] @ body_content c)
                               (emit (MakeDirs (path @ [A ''images''])) st))
                        @ (if files c = [] then []
                           else [10, 10] @ A ''## '' @ attachments_heading @ [10] @ concat links))]"
    and d1: "\<forall>e \<in> set es1. \<exists>fid name. e = Download fid name True"
    and d2: "\<forall>e \<in> set es2. \<exists>fid name. e = Download fid name False"
    by blast
  have q: "\<forall>p x. WriteContent p x \<notin> set ([MakeDirs (path @ [A ''images''])] @ es1 @ es2)"
    using d1 d2 by auto
  show "\<exists>es md. trace st' = trace st @ es
                     @ [WriteMetadata (path @ [A ''metadata.json'']) md,
                        WriteContent (path @ [A ''content.md''])
                          (fst (re_sub (udb E) (replace_image E)
                                  (A ''# '' @ subject pg @ [10, 10] @ body_content c)
                                  (emit (MakeDirs (path @ [A ''images''])) st)))]
                \<and> (\<forall>p x. WriteContent p x \<notin> set es)"
    using t q assms(1)
    by (intro exI[of _ "[MakeDirs (path @ [A ''images''])] @ es1 @ es2"]
              exI[of _ "\<lparr>md_id = page_id pg, md_subject = subject pg, md_mimeType = mimeType c,
                        md_createdAt = createdAt c, md_parentPageId = parentPageId pg,
                        md_attachments = files c\<rparr>"]) simp
next
  assume "\<not> contains_image_markup (udb E) (subject pg)"
  from re_sub_heading[OF this, of "replace_image E" "body_content c" "emit (MakeDirs (path @ [A ''images''])) st"]
  show "fst (re_sub (udb E) (replace_image E)
                   (A ''# '' @ subject pg @ [10, 10] @ body_content c)
                   (emit (MakeDirs (path @ [A ''images''])) st))
              = A ''# '' @ subject pg @ [10, 10]
                  @ fst (re_sub (udb E) (replace_image E) (body_content c)
                           (emit (MakeDirs (path @ [A ''images''])) st))"
    by simp
qed

theorem no_attachments_section_when_empty_witness:
  "(case save_page demo_env (demo_page ''A'' ''Home'' None)
           \<lparr>body_content = A ''text'', mimeType = A ''text/x-markdown'',
            createdAt = A ''2024-01-01'', files = []\<rparr>
           [A ''out''] (init_state 2) of
      Inl e \<Rightarrow> False
    | Inr st' \<Rightarrow> last (trace st') = WriteContent [A ''out'', A ''content.md''] (A ''# Home'' @ [10, 10] @ A ''text''))"
proof -
  let ?c = "\<lparr>body_content = A ''text'', mimeType = A ''text/x-markdown'',
            createdAt = A ''2024-01-01'', files = []\<rparr>"
  let ?pg = "demo_page ''A'' ''Home'' None"
  obtain st' where s: "save_page demo_env ?pg ?c [A ''out''] (init_state 2) = Inr st'"
    using save_page_ok[of demo_env "[A ''out'']" ?c] demo_no_failures by blast
  have e: "files ?c = []" by simp
  have n1: "\<not> has_match ascii_db (A ''Home'')" "\<not> has_match ascii_db (A ''text'')"
    by (simp_all add: A_def match_here_def)
  then have n: "\<not> contains_image_markup (udb demo_env) (subject ?pg)"
    by (simp add: has_match_iff[symmetric] demo_udb demo_page_def)
  from no_attachments_section_when_empty[OF e s] n
  have "last (trace st') = WriteContent ([A ''out''] @ [A ''content.md''])
          (A ''# '' @ subject ?pg @ [10, 10]
             @ fst (re_sub (udb demo_env) (replace_image demo_env) (body_content ?c)
                     (emit (MakeDirs ([A ''out''] @ [A ''images''])) (init_state 2))))"
    by auto
  then have "last (trace st') = WriteContent [A ''out'', A ''content.md''] (A ''# Home'' @ [10, 10] @ A ''text'')"
    using n1(2) by (simp add: demo_udb re_sub_no_match demo_page_def A_def)
  with s show ?thesis by simp
qed

lemma demo_title_match:
  "match_here ascii_db (A ''![t](/wikis/1/files/2)'' @ [10, 10] @ A ''text'')
     = Some (A ''t'', A ''1'', A ''2'', [10, 10] @ A ''text'')"
  by (simp add: A_def match_here_def match_tail_def isdecimal_def ascii_db_def)

lemma demo_title_rewrite:
  "fst (re_sub (udb demo_env) (replace_image demo_env)
          (A ''# '' @ A ''![t](/wikis/1/files/2)'' @ [10, 10] @ A ''text'')
          (emit (MakeDirs ([A ''out''] @ [A ''images''])) (init_state 2)))
     = A ''# ![t] ('' @ download_failed @ A '' - Wiki ID: 1, File ID: 2)'' @ [10, 10] @ A ''text''"
proof -
  let ?st = "emit (MakeDirs ([A ''out''] @ [A ''images''])) (init_state 2)"
  let ?rest = "A ''![t](/wikis/1/files/2)'' @ [10, 10] @ A ''text''"
  have h: "A ''# '' @ ?rest = 35 # 32 # ?rest" by (simp add: A_def)
  have n1: "match_here ascii_db (35 # 32 # ?rest) = None" "match_here ascii_db (32 # ?rest) = None"
    by (simp_all add: match_here_def A_def)
  have o: "image_outcome demo_env (A ''t'', A ''1'', A ''2'') ?st = NoFile"
    by (simp add: image_outcome_def demo_env_def init_state_def emit_def)
  have nm: "\<not> has_match ascii_db ([10, 10] @ A ''text'')"
    by (simp add: A_def match_here_def)
  show ?thesis
    unfolding demo_udb h re_sub_skip[OF n1(1)] re_sub_skip[OF n1(2)] re_sub_match[OF demo_title_match]
      re_sub_no_match[OF nm] fst_conv snd_conv replace_image_outcome o dl_outcome.case
    by (simp add: A_def)
qed

text \<open>
  A page without attachments whose title is itself an inline-image reference, with a
  downloader that finds no file: the heading line written to \<^verbatim>\<open>content.md\<close> carries the
  failure marker, so the content is not the literal heading line followed by the rewritten
  body.
\<close>

theorem title_markup_rewritten_counterexample:
  "(case save_page demo_env
           \<lparr>page_id = A ''T'', subject = A ''![t](/wikis/1/files/2)'', parentPageId = None\<rparr>
           \<lparr>body_content = A ''text'', mimeType = A ''text/x-markdown'',
            createdAt = A ''2024-01-01'', files = []\<rparr>
           [A ''out''] (init_state 2) of
      Inl e \<Rightarrow> False
    | Inr st' \<Rightarrow>
        last (trace st')
          = WriteContent [A ''out'', A ''content.md'']
              (A ''# ![t] ('' @ download_failed @ A '' - Wiki ID: 1, File ID: 2)'' @ [10, 10] @ A ''text'')
        \<and> last (trace st')
          \<noteq> WriteContent [A ''out'', A ''content.md'']
              (A ''# '' @ A ''![t](/wikis/1/files/2)'' @ [10, 10]
                 @ fst (re_sub (udb demo_env) (replace_image demo_env) (A ''text'')
                          (emit (MakeDirs [A ''out'', A ''images'']) (init_state 2)))))"
proof -
  let ?pg = "\<lparr>page_id = A ''T'', subject = A ''![t](/wikis/1/files/2)'', parentPageId = None\<rparr>"
  let ?c = "\<lparr>body_content = A ''text'', mimeType = A ''text/x-markdown'',
            createdAt = A ''2024-01-01'', files = []\<rparr>"
  obtain st' where s: "save_page demo_env ?pg ?c [A ''out''] (init_state 2) = Inr st'"
    using save_page_ok[of demo_env "[A ''out'']" ?c] demo_no_failures by blast
  from save_page_Inr[OF s] have
    "last (trace st') = WriteContent ([A ''out''] @ [A ''content.md''])
        (fst (re_sub (udb demo_env) (replace_image demo_env)
                (A ''# '' @ subject ?pg @ [10, 10] @ body_content ?c)
                (emit (MakeDirs ([A ''out''] @ [A ''images''])) (init_state 2))))"
    by auto
  then have l: "last (trace st') = WriteContent [A ''out'', A ''content.md'']
        (A ''# ![t] ('' @ download_failed @ A '' - Wiki ID: 1, File ID: 2)'' @ [10, 10] @ A ''text'')"
    using demo_title_rewrite by simp
  have nm: "\<not> has_match ascii_db (A ''text'')" by (simp add: A_def match_here_def)
  have b: "fst (re_sub (udb demo_env) (replace_image demo_env) (A ''text'')
                  (emit (MakeDirs [A ''out'', A ''images'']) (init_state 2))) = A ''text''"
    by (simp add: demo_udb re_sub_no_match[OF nm])
  have d: "A ''# ![t] ('' @ download_failed @ A '' - Wiki ID: 1, File ID: 2)'' @ [10, 10] @ A ''text''
           \<noteq> A ''# '' @ A ''![t](/wikis/1/files/2)'' @ [10, 10] @ A ''text''"
    by (simp add: A_def download_failed_def)
  from l b d s show ?thesis by simp
qed

section \<open>Properties of the Traversal Engine\<close>

lemma emit_fields [simp]:
  "page_counter (emit e st) = page_counter st"
  "trace (emit e st) = trace st @ [e]"
  by (simp_all add: emit_def)

lemma backup_recursive_quota:
  "count (page_counter st) \<ge> limit (page_counter st) \<Longrightarrow> limit (page_counter st) \<noteq> - 1 \<Longrightarrow>
   backup_recursive E (Suc d) parent base st = Inr st"
  by simp

lemma backup_recursive_fetch:
  "count (page_counter st) < limit (page_counter st) \<or> limit (page_counter st) = - 1 \<Longrightarrow>
   get_pages E parent = Inr pages \<Longrightarrow>
   backup_recursive E (Suc d) parent base st
     = backup_loop E d parent base pages (emit (GetPages parent) st)"
  by auto

lemma backup_loop_Cons_stop:
  "\<not> (limit (page_counter st) = - 1 \<or> count (page_counter st) + 1 \<le> limit (page_counter st)) \<Longrightarrow>
   backup_loop E depth parent base (pg # pages) st
     = Inr (st\<lparr>page_counter := (page_counter st)\<lparr>count := count (page_counter st) + 1\<rparr>\<rparr>)"
  by (simp add: increment_def Let_def)

lemma backup_loop_Cons_ok:
  assumes nf: "\<And>p. \<not> makedirs_fails E p" "\<And>p. \<not> write_fails E p"
      and ok: "limit (page_counter st) = - 1 \<or> count (page_counter st) + 1 \<le> limit (page_counter st)"
      and c: "get_page_content E (page_id pg) = Inr pc"
      and n: "n = getitem_default (level_counters (page_counter st)) (parent_key parent) + 1"
      and pp: "page_path = base @ [dir_name (udb E) (subject pg) n]"
  shows "\<exists>st3. backup_loop E depth parent base (pg # pages) st
                 = (case backup_recursive E depth (Some (page_id pg)) page_path st3 of
                      Inl e \<Rightarrow> Inl e
                    | Inr st4 \<Rightarrow> backup_loop E depth parent base pages st4)
              \<and> count (page_counter st3) = count (page_counter st) + 1
              \<and> limit (page_counter st3) = limit (page_counter st)
              \<and> materialized (trace st3) = materialized (trace st) @ [page_path]
              \<and> listed (trace st3) = listed (trace st)
              \<and> fetched (trace st3) = fetched (trace st) @ [page_id pg]
              \<and> reported (trace st3) = reported (trace st)"
proof -
  let ?c1 = "(page_counter st)\<lparr>count := count (page_counter st) + 1\<rparr>"
  let ?c2 = "?c1\<lparr>level_counters := (level_counters ?c1)(parent_key parent \<mapsto> n)\<rparr>"
  let ?st2 = "emit (GetPageContent (page_id pg)) (emit (MakeDirs page_path) (st\<lparr>page_counter := ?c2\<rparr>))"
  have inc: "increment (page_counter st) = (?c1, True)"
    using ok by (simp add: increment_def Let_def)
  have gnn: "get_next_number ?c1 (parent_key parent) = (?c2, n)"
    by (simp add: get_next_number_def Let_def n getitem_default_def)
  have cnd: "create_numbered_dir E base (subject pg) n (st\<lparr>page_counter := ?c2\<rparr>)
               = Inr (page_path, emit (MakeDirs page_path) (st\<lparr>page_counter := ?c2\<rparr>))"
    using nf(1) by (simp add: create_numbered_dir_def makedirs_def Let_def pp)
  obtain st3 where s3: "save_page E pg pc page_path ?st2 = Inr st3"
    using save_page_ok[of E page_path pc pg ?st2] nf by blast
  note sm = save_page_summary[OF s3]
  have "backup_loop E depth parent base (pg # pages) st
          = (case backup_recursive E depth (Some (page_id pg)) page_path st3 of
               Inl e \<Rightarrow> Inl e
             | Inr st4 \<Rightarrow> backup_loop E depth parent base pages st4)"
    using inc gnn cnd c s3 by simp
  moreover have "count (page_counter st3) = count (page_counter st) + 1"
    "limit (page_counter st3) = limit (page_counter st)"
    using sm by simp_all
  moreover have "materialized (trace st3) = materialized (trace st) @ [page_path]"
    "listed (trace st3) = listed (trace st)"
    "fetched (trace st3) = fetched (trace st) @ [page_id pg]"
    "reported (trace st3) = reported (trace st)"
    using sm by (simp_all add: projections_append)
  ultimately show ?thesis by blast
qed

lemma backup_unfold:
  assumes "get_pages E None = Inr (pA # others)"
      and "get_page_content E (page_id pA) = Inr cA"
      and "\<not> makedirs_fails E (backup_dir @ [dir_name (udb E) code 1])"
      and "save_page E pA cA (backup_dir @ [dir_name (udb E) code 1])
             ((emit (MakeDirs (backup_dir @ [dir_name (udb E) code 1]))
                (emit (GetPageContent (page_id pA)) (emit (GetPages None) st)))
              \<lparr>page_counter := fst (get_next_number (fst (increment (page_counter st))) (A ''root''))\<rparr>)
           = Inr st3"
  shows "backup E depth code backup_dir st
           = (case backup_recursive E depth (Some (page_id pA)) (backup_dir @ [dir_name (udb E) code 1]) st3 of
                Inl e \<Rightarrow> Inl e
              | Inr st4 \<Rightarrow> Inr (emit (LogTotal (count (page_counter st4))) st4))"
  using assms
  by (simp add: backup_def create_numbered_dir_def makedirs_def Let_def case_prod_beta)

lemma backup_two_children:
  assumes nf: "\<And>p. \<not> makedirs_fails E p" "\<And>p. \<not> write_fails E p"
      and top: "get_pages E None = Inr (pA # others)"
      and cA: "get_page_content E (page_id pA) = Inr cA"
      and kids: "get_pages E (Some (page_id pA)) = Inr [pB, pC]"
      and cB: "get_page_content E (page_id pB) = Inr cB"
      and rp: "root_path = backup_dir @ [dir_name (udb E) code 1]"
      and n: "n = (if parent_key (Some (page_id pA)) = A ''root'' then 2 else 1)"
  shows "\<exists>st'. backup E (Suc (Suc d)) code backup_dir (init_state 2) = Inr st'
             \<and> materialized (trace st') = [root_path, root_path @ [dir_name (udb E) (subject pB) n]]
             \<and> listed (trace st') = [None, Some (page_id pA)]
             \<and> fetched (trace st') = [page_id pA, page_id pB]
             \<and> reported (trace st') = [3]
             \<and> count (page_counter st') = 3"
proof -
  let ?st0 = "init_state 2"
  let ?c2 = "fst (get_next_number (fst (increment (page_counter ?st0))) (A ''root''))"
  let ?st2 = "(emit (MakeDirs (backup_dir @ [dir_name (udb E) code 1]))
                (emit (GetPageContent (page_id pA)) (emit (GetPages None) ?st0)))
              \<lparr>page_counter := ?c2\<rparr>"
  have c2: "count ?c2 = 1" "limit ?c2 = 2"
    "getitem_default (level_counters ?c2) k = (if k = A ''root'' then 1 else 0)" for k
    by (simp_all add: init_state_def PageCounter_def increment_def get_next_number_def Let_def
          getitem_default_def)
  obtain st3 where s3: "save_page E pA cA (backup_dir @ [dir_name (udb E) code 1]) ?st2 = Inr st3"
    using save_page_ok[of E "backup_dir @ [dir_name (udb E) code 1]" cA pA ?st2] nf by blast
  note sm3 = save_page_summary[OF s3]
  have p3: "page_counter st3 = ?c2" using sm3 by simp
  have t3: "materialized (trace st3) = [root_path]" "listed (trace st3) = [None]"
    "fetched (trace st3) = [page_id pA]" "reported (trace st3) = []"
    using sm3 by (simp_all add: projections_append init_state_def rp)
  \<comment> \<open>the children of the root are listed, since one page is below the quota of two\<close>
  let ?st4 = "emit (GetPages (Some (page_id pA))) st3"
  have r1: "backup_recursive E (Suc (Suc d)) (Some (page_id pA)) root_path st3
              = backup_loop E (Suc d) (Some (page_id pA)) root_path [pB, pC] ?st4"
    by (rule backup_recursive_fetch) (simp_all add: p3 c2 kids)
  \<comment> \<open>the first child is within the quota and is materialized\<close>
  have nB: "n = getitem_default (level_counters (page_counter ?st4)) (parent_key (Some (page_id pA))) + 1"
    by (simp add: p3 c2(3) n)
  have okB: "limit (page_counter ?st4) = - 1 \<or> count (page_counter ?st4) + 1 \<le> limit (page_counter ?st4)"
    by (simp add: p3 c2)
  from backup_loop_Cons_ok[where base = root_path and depth = "Suc d" and pages = "[pC]", OF nf okB cB nB refl]
  obtain st5 where l1: "backup_loop E (Suc d) (Some (page_id pA)) root_path [pB, pC] ?st4
                 = (case backup_recursive E (Suc d) (Some (page_id pB))
                           (root_path @ [dir_name (udb E) (subject pB) n]) st5 of
                      Inl e \<Rightarrow> Inl e
                    | Inr st6 \<Rightarrow> backup_loop E (Suc d) (Some (page_id pA)) root_path [pC] st6)"
    and p5: "count (page_counter st5) = count (page_counter ?st4) + 1"
            "limit (page_counter st5) = limit (page_counter ?st4)"
    and t5: "materialized (trace st5) = materialized (trace ?st4) @ [root_path @ [dir_name (udb E) (subject pB) n]]"
            "listed (trace st5) = listed (trace ?st4)"
            "fetched (trace st5) = fetched (trace ?st4) @ [page_id pB]"
            "reported (trace st5) = reported (trace ?st4)"
    by blast
  have q5: "count (page_counter st5) = 2" "limit (page_counter st5) = 2"
    using p5 by (simp_all add: p3 c2)
  \<comment> \<open>the quota is reached: the children of the first child are not listed\<close>
  have r2: "backup_recursive E (Suc d) (Some (page_id pB))
              (root_path @ [dir_name (udb E) (subject pB) n]) st5 = Inr st5"
    by (rule backup_recursive_quota) (simp_all add: q5)
  \<comment> \<open>the second child is counted, found over the quota, and the loop returns\<close>
  let ?st7 = "st5\<lparr>page_counter := (page_counter st5)\<lparr>count := count (page_counter st5) + 1\<rparr>\<rparr>"
  have l2: "backup_loop E (Suc d) (Some (page_id pA)) root_path [pC] st5 = Inr ?st7"
    by (rule backup_loop_Cons_stop) (simp add: q5)
  have "backup E (Suc (Suc d)) code backup_dir ?st0
          = Inr (emit (LogTotal (count (page_counter ?st7))) ?st7)"
    by (simp only: backup_unfold[OF top cA nf(1) s3] r1[unfolded rp] l1[unfolded rp]
          r2[unfolded rp] l2[unfolded rp] sum.case)
  moreover have "materialized (trace (emit (LogTotal (count (page_counter ?st7))) ?st7))
                   = [root_path, root_path @ [dir_name (udb E) (subject pB) n]]"
    "listed (trace (emit (LogTotal (count (page_counter ?st7))) ?st7)) = [None, Some (page_id pA)]"
    "fetched (trace (emit (LogTotal (count (page_counter ?st7))) ?st7)) = [page_id pA, page_id pB]"
    "reported (trace (emit (LogTotal (count (page_counter ?st7))) ?st7)) = [3]"
    "count (page_counter (emit (LogTotal (count (page_counter ?st7))) ?st7)) = 3"
    using t5 t3 q5 by (simp_all add: projections_append)
  ultimately show ?thesis by (intro exI[of _ "emit (LogTotal (count (page_counter ?st7))) ?st7"] conjI)
qed


lemma demo_tree:
  "get_pages demo_env None = Inr (demo_page ''A'' ''Home'' None # [])"
  "get_pages demo_env (Some (page_id (demo_page ''A'' ''Home'' None)))
     = Inr [demo_page ''B'' ''a/b: c'' (Some (A ''A'')), demo_page ''C'' ''Notes'' (Some (A ''A''))]"
  "get_page_content demo_env (page_id (demo_page ''A'' ''Home'' None))
     = Inr \<lparr>body_content = A ''text'', mimeType = A ''text/x-markdown'',
            createdAt = A ''2024-01-01'', files = []\<rparr>"
  "get_page_content demo_env (page_id (demo_page ''B'' ''a/b: c'' (Some (A ''A''))))
     = Inr \<lparr>body_content = A ''see ![diagram](/wikis/10/files/20)'', mimeType = A ''text/x-markdown'',
            createdAt = A ''2024-01-01'', files = []\<rparr>"
  by (simp_all add: demo_env_def demo_pages_def demo_content_def demo_page_def A_def)

lemma demo_names:
  "dir_name (udb demo_env) (A ''PRJ'') 1 = A ''01 PRJ''"
  "dir_name (udb demo_env) (A ''a/b: c'') 1 = A ''01 a_b_ c''"
  "parent_key (Some (A ''A'')) \<noteq> A ''root''"
  by (simp_all add: dir_name_def safe_subject_def format_02d_def dec_nat.simps demo_env_def
        ascii_db_def demo_page_def parent_key_def A_def
        isalnum_def isalpha_def isdecimal_def isdigit_def isnumeric_def)


text \<open>
  Claim C2, on the concrete wiki with a quota of 2.  The run succeeds and materializes two
  pages, the root and its first child, but the total it logs is 3: \<open>increment\<close> has already
  counted the second child when it finds it over the quota, and the log line prints that
  count as the number of pages backed up.
\<close>

theorem reported_total_counts_rejected_page:
  "(case backup demo_env 2 (A ''PRJ'') [A ''backups''] (init_state 2) of
      Inl e \<Rightarrow> False
    | Inr st' \<Rightarrow>
        reported (trace st') = [3]
        \<and> materialized (trace st')
            = [[A ''backups'', A ''01 PRJ''], [A ''backups'', A ''01 PRJ'', A ''01 a_b_ c'']])"
proof -
  from backup_two_children[OF demo_no_failures demo_tree(1,3,2,4) refl refl, of 0 "A ''PRJ''" "[A ''backups'']"]
  obtain st' where "backup demo_env (Suc (Suc 0)) (A ''PRJ'') [A ''backups''] (init_state 2) = Inr st'"
    "materialized (trace st')
          = [[A ''backups'', A ''01 PRJ''], [A ''backups'', A ''01 PRJ'', A ''01 a_b_ c'']]"
    "reported (trace st') = [3]"
    by (auto simp: demo_names demo_page_def)
  then show ?thesis by (simp add: numeral_2_eq_2)
qed

section \<open>The properties at work on the concrete wiki\<close>

lemma demo_no_image: "\<not> has_match ascii_db (A ''see ![x](/wiki/1/files/2)'')"
  by (simp add: A_def match_here_def match_tail_def)

theorem rewrite_identity_without_images_witness:
  "\<not> contains_image_markup (udb demo_env) (A ''see ![x](/wiki/1/files/2)'')
   \<and> process_inline_images demo_env (A ''see ![x](/wiki/1/files/2)'') [A ''p''] (init_state 2)
       = Inr (A ''see ![x](/wiki/1/files/2)'', emit (MakeDirs [A ''p'', A ''images'']) (init_state 2))"
proof -
  have h: "\<not> contains_image_markup (udb demo_env) (A ''see ![x](/wiki/1/files/2)'')"
    using demo_no_image by (simp add: has_match_iff[symmetric] demo_udb)
  from rewrite_identity_without_images[OF h, of "init_state 2" "[A ''p'']"] h
  show ?thesis by (simp add: demo_env_def)
qed

lemma demo_dir_name: "dir_name ascii_db (A ''a/b: c'') 3 = A ''03 a_b_ c''"
  by (simp add: dir_name_def safe_subject_def format_02d_def dec_nat.simps ascii_db_def A_def
       isalnum_def isalpha_def isdecimal_def isdigit_def isnumeric_def)

theorem create_numbered_dir_name_witness:
  "(0::int) \<le> 3 \<and> (3::int) < 10
   \<and> \<not> makedirs_fails demo_env ([A ''backups''] @ [dir_name (udb demo_env) (A ''a/b: c'') 3])
   \<and> dir_name (udb demo_env) (A ''a/b: c'') 3 = A ''03 a_b_ c''
   \<and> create_numbered_dir demo_env [A ''backups''] (A ''a/b: c'') 3 (init_state 2)
       = Inr ([A ''backups'', A ''03 a_b_ c''],
              emit (MakeDirs [A ''backups'', A ''03 a_b_ c'']) (init_state 2))"
proof -
  have h: "\<not> makedirs_fails demo_env ([A ''backups''] @ [dir_name (udb demo_env) (A ''a/b: c'') 3])"
    by (simp add: demo_env_def)
  from create_numbered_dir_name[of demo_env "A ''a/b: c''" 3 "[A ''backups'']" "init_state 2"] h
  show ?thesis by (simp add: demo_udb demo_dir_name)
qed

lemma demo_match_a:
  "match_here ascii_db (A ''![a](/wikis/1/files/2) ![b](/wikis/3/files/4)'')
     = Some (A ''a'', A ''1'', A ''2'', A '' ![b](/wikis/3/files/4)'')"
  by (simp add: A_def match_here_def match_tail_def isdecimal_def ascii_db_def)

lemma demo_match_b:
  "match_here ascii_db (A ''![b](/wikis/3/files/4)'') = Some (A ''b'', A ''3'', A ''4'', [])"
  by (simp add: A_def match_here_def match_tail_def isdecimal_def ascii_db_def)

lemma demo_two_segments:
  "segments ascii_db (A ''![a](/wikis/1/files/2) ![b](/wikis/3/files/4)'')
     = [Image (A ''a'') (A ''1'') (A ''2''), Text 32, Image (A ''b'') (A ''3'') (A ''4'')]"
proof -
  have s: "A '' ![b](/wikis/3/files/4)'' = 32 # A ''![b](/wikis/3/files/4)''" by (simp add: A_def)
  have n: "match_here ascii_db (32 # A ''![b](/wikis/3/files/4)'') = None"
    by (simp add: match_here_def A_def)
  show ?thesis
    unfolding segments_match[OF demo_match_a] s segments_skip[OF n] segments_match[OF demo_match_b]
    by simp
qed

theorem failed_image_degrades_witness:
  "(Image (A ''a'') (A ''1'') (A ''2''), Some NoFile,
      A ''![a] ('' @ download_failed @ A '' - Wiki ID: 1, File ID: 2)'')
     \<in> set (fst (run_segments demo_env
                    (segments (udb demo_env) (A ''![a](/wikis/1/files/2) ![b](/wikis/3/files/4)''))
                    (init_state 2)))
   \<and> (Image (A ''b'') (A ''3'') (A ''4''), Some Raised,
      A ''![b] ('' @ processing_error @ A '' - Wiki ID: 3, File ID: 4)'')
     \<in> set (fst (run_segments demo_env
                    (segments (udb demo_env) (A ''![a](/wikis/1/files/2) ![b](/wikis/3/files/4)''))
                    (init_state 2)))
   \<and> \<not> makedirs_fails demo_env ([A ''p''] @ [A ''images''])
   \<and> fst (re_sub (udb demo_env) (replace_image demo_env)
            (A ''![a](/wikis/1/files/2) ![b](/wikis/3/files/4)'') (init_state 2))
       = A ''![a] ('' @ download_failed @ A '' - Wiki ID: 1, File ID: 2) ![b] (''
           @ processing_error @ A '' - Wiki ID: 3, File ID: 4)''"
proof -
  let ?st1 = "snd (replace_image demo_env (A ''a'', A ''1'', A ''2'') (init_state 2))"
  have o1: "image_outcome demo_env (A ''a'', A ''1'', A ''2'') (init_state 2) = NoFile"
    by (simp add: image_outcome_def demo_env_def init_state_def)
  have o2: "image_outcome demo_env (A ''b'', A ''3'', A ''4'') ?st1 = Raised"
    by (simp add: image_outcome_def replace_image_state demo_env_def init_state_def emit_def)
  have r: "fst (run_segments demo_env
                  (segments (udb demo_env) (A ''![a](/wikis/1/files/2) ![b](/wikis/3/files/4)''))
                  (init_state 2))
     = [(Image (A ''a'') (A ''1'') (A ''2''), Some NoFile,
           A ''![a] ('' @ download_failed @ A '' - Wiki ID: 1, File ID: 2)''),
        (Text 32, None, [32]),
        (Image (A ''b'') (A ''3'') (A ''4''), Some Raised,
           A ''![b] ('' @ processing_error @ A '' - Wiki ID: 3, File ID: 4)'')]"
    unfolding demo_udb demo_two_segments run_segments_Text run_segments_Image fst_conv snd_conv
      replace_image_outcome o1 o2 dl_outcome.case
    by (simp add: A_def)
  have h: "\<not> makedirs_fails demo_env ([A ''p''] @ [A ''images''])" by (simp add: demo_env_def)
  from failed_image_degrades[of demo_env "A ''![a](/wikis/1/files/2) ![b](/wikis/3/files/4)''" "init_state 2" "[A ''p'']"] r h
  show ?thesis by (simp add: A_def)
qed

end
